theory Spec2Isabelle
  imports Main "HOL-Library.Word" "HOL-Library.AList" "HOL-Library.Multiset"
begin

section \<open>Data model\<close>

text \<open>
  The ledger of \<^verbatim>\<open>qos_resource_helpers.go\<close> is a Go map of maps,
  \<^verbatim>\<open>map[QOSResourceName]map[string]int64\<close>, always handled through a pointer
  receiver. Go maps are references to shared, mutable objects, so the model keeps them in an
  explicit store with three levels:
  \<^item> \<open>vars\<close>: the variables of type \<^verbatim>\<open>QOSResourcesTotal\<close>; a receiver
    \<^verbatim>\<open>r *QOSResourcesTotal\<close> is \<open>None\<close> (the nil pointer) or \<open>Some p\<close>, the
    address of such a variable. A variable holds \<open>None\<close> (the nil map) or \<open>Some m\<close>, a
    reference to a ledger map object;
  \<^item> \<open>ledgers\<close>: the ledger map objects; each maps a resource name to \<open>None\<close> (a nil
    \<^verbatim>\<open>QOSResourceTotal\<close>) or to \<open>Some t\<close>, a reference to a class counter object;
  \<^item> \<open>totals\<close>: the class counter objects, each mapping a class name to an \<open>int64\<close>.

  An address is an index into the list of objects of its kind; \<^verbatim>\<open>make\<close> appends a new
  empty object. The contents of a map object are an association list: its order stands for
  the order in which \<^verbatim>\<open>range\<close> visits the entries, which Go leaves unspecified.
  Amounts are 64-bit words, so that \<open>+\<close> and \<open>-1 *\<close> wrap around as Go's \<^verbatim>\<open>int64\<close> does.
\<close>

type_synonym int64 = "64 word"
type_synonym QOSResourceName = string
type_synonym QOSResourceTotal = "(string \<times> int64) list"
type_synonym QOSResourcesTotal = "(QOSResourceName \<times> nat option) list"

record store =
  totals :: "QOSResourceTotal list"
  ledgers :: "QOSResourcesTotal list"
  vars :: "nat option list"

text \<open>
  The request, capacity and pod types are declared in \<^verbatim>\<open>k8s.io/api/core/v1\<close>, which is
  not part of the sources at hand. They are modelled by the fields that the code reads.
  \<^verbatim>\<open>PodQOSResourceRequest\<close> and \<^verbatim>\<open>QOSResourceRequest\<close> are both read through
  \<^verbatim>\<open>Name\<close> and \<^verbatim>\<open>Class\<close> only; field names that occur in several Go structs carry a
  prefix here.
\<close>

record QOSResourceRequest =
  Name :: QOSResourceName
  Class :: string

type_synonym PodQOSResourceRequest = QOSResourceRequest

record QOSResourceClassInfo =
  ClassName :: string
  Capacity :: int64

record QOSResourceInfo =
  InfoName :: QOSResourceName
  Classes :: "QOSResourceClassInfo list"

record ResourceRequirements =
  QOSResources :: "QOSResourceRequest list"

record Container =
  Resources :: ResourceRequirements

record PodSpec =
  PodQOSResources :: "PodQOSResourceRequest list"
  Containers :: "Container list"
  InitContainers :: "Container list"

record Pod =
  Spec :: PodSpec

datatype panic = NilPointerDereference

section \<open>Store primitives\<close>

text \<open>Reading through a map reference; a nil map reads as a map without entries.\<close>

definition ledger_at :: "store \<Rightarrow> nat option \<Rightarrow> QOSResourcesTotal" where
  "ledger_at s m = (case m of None \<Rightarrow> [] | Some a \<Rightarrow> ledgers s ! a)"

definition total_at :: "store \<Rightarrow> nat option \<Rightarrow> QOSResourceTotal" where
  "total_at s t = (case t of None \<Rightarrow> [] | Some a \<Rightarrow> totals s ! a)"

text \<open>\<^verbatim>\<open>m[name]\<close> and \<^verbatim>\<open>t[class]\<close>: a missing key reads as the zero value.\<close>

definition ledger_index :: "store \<Rightarrow> nat option \<Rightarrow> QOSResourceName \<Rightarrow> nat option" where
  "ledger_index s m name = (case map_of (ledger_at s m) name of None \<Rightarrow> None | Some t \<Rightarrow> t)"

definition total_index :: "store \<Rightarrow> nat option \<Rightarrow> string \<Rightarrow> int64" where
  "total_index s t class = (case map_of (total_at s t) class of None \<Rightarrow> 0 | Some a \<Rightarrow> a)"

text \<open>\<^verbatim>\<open>make(QOSResourcesTotal)\<close>, \<^verbatim>\<open>make(QOSResourceTotal)\<close> and the declaration of a
  variable of type \<^verbatim>\<open>QOSResourcesTotal\<close>.\<close>

definition make_ledger :: "store \<Rightarrow> nat \<times> store" where
  "make_ledger s = (length (ledgers s), s\<lparr>ledgers := ledgers s @ [[]]\<rparr>)"

definition make_total :: "store \<Rightarrow> nat \<times> store" where
  "make_total s = (length (totals s), s\<lparr>totals := totals s @ [[]]\<rparr>)"

definition new_var :: "nat option \<Rightarrow> store \<Rightarrow> nat \<times> store" where
  "new_var v s = (length (vars s), s\<lparr>vars := vars s @ [v]\<rparr>)"

text \<open>The assignments \<^verbatim>\<open>*r = m\<close>, \<^verbatim>\<open>m[name] = t\<close> and \<^verbatim>\<open>t[class] = v\<close>.\<close>

definition set_var :: "nat \<Rightarrow> nat option \<Rightarrow> store \<Rightarrow> store" where
  "set_var p v s = s\<lparr>vars := (vars s)[p := v]\<rparr>"

definition set_ledger_entry :: "nat \<Rightarrow> QOSResourceName \<Rightarrow> nat option \<Rightarrow> store \<Rightarrow> store" where
  "set_ledger_entry m name t s =
     s\<lparr>ledgers := (ledgers s)[m := AList.update name t (ledgers s ! m)]\<rparr>"

definition set_total_entry :: "nat \<Rightarrow> string \<Rightarrow> int64 \<Rightarrow> store \<Rightarrow> store" where
  "set_total_entry t class v s =
     s\<lparr>totals := (totals s)[t := AList.update class v (totals s ! t)]\<rparr>"

section \<open>The operations of the ledger\<close>

text \<open>
  \<^verbatim>\<open>add\<close>: nothing on a nil receiver; otherwise the ledger map and the class counter are
  made when they are nil, and the amount is added to the entry. \<open>m\<close> and \<open>t\<close> are what
  \<^verbatim>\<open>*r\<close> and \<^verbatim>\<open>(*r)[name]\<close> read in the last line of the function.
\<close>

definition add :: "nat option \<Rightarrow> QOSResourceName \<Rightarrow> string \<Rightarrow> int64 \<Rightarrow> store \<Rightarrow> store" where
  "add r name class amount s =
     (case r of
        None \<Rightarrow> s
      | Some p \<Rightarrow>
          let (m, s1) = (case vars s ! p of
                           None \<Rightarrow> (let (m, s') = make_ledger s in (m, set_var p (Some m) s'))
                         | Some m \<Rightarrow> (m, s));
              (t, s2) = (case ledger_index s1 (Some m) name of
                           None \<Rightarrow> (let (t, s') = make_total s1
                                     in (t, set_ledger_entry m name (Some t) s'))
                         | Some t \<Rightarrow> (t, s1))
          in set_total_entry t class (total_index s2 (Some t) class + amount) s2)"

fun add_requests :: "nat option \<Rightarrow> QOSResourceRequest list \<Rightarrow> store \<Rightarrow> store" where
  "add_requests r [] s = s"
| "add_requests r (qr # qrl) s = add_requests r qrl (add r (Name qr) (Class qr) 1 s)"

definition AddPodQOSResources :: "nat option \<Rightarrow> PodQOSResourceRequest list \<Rightarrow> store \<Rightarrow> store" where
  "AddPodQOSResources r qrl s = (case r of None \<Rightarrow> s | Some p \<Rightarrow> add_requests r qrl s)"

definition AddContainerQOSResources :: "nat option \<Rightarrow> QOSResourceRequest list \<Rightarrow> store \<Rightarrow> store" where
  "AddContainerQOSResources r qrl s = (case r of None \<Rightarrow> s | Some p \<Rightarrow> add_requests r qrl s)"

text \<open>The loop of \<^verbatim>\<open>SetMaxContainerQOSResources\<close>, for a receiver that is not nil.\<close>

fun set_max_requests :: "nat \<Rightarrow> QOSResourceRequest list \<Rightarrow> store \<Rightarrow> store" where
  "set_max_requests p [] s = s"
| "set_max_requests p (qr # qrl) s =
     set_max_requests p qrl
       (if ledger_index s (vars s ! p) (Name qr) = None \<or>
           total_index s (ledger_index s (vars s ! p) (Name qr)) (Class qr) = 0
        then add (Some p) (Name qr) (Class qr) 1 s
        else s)"

definition SetMaxContainerQOSResources :: "nat option \<Rightarrow> QOSResourceRequest list \<Rightarrow> store \<Rightarrow> store" where
  "SetMaxContainerQOSResources r qrl s =
     (case r of None \<Rightarrow> s | Some p \<Rightarrow> set_max_requests p qrl s)"

definition GetAmount :: "nat option \<Rightarrow> QOSResourceName \<Rightarrow> string \<Rightarrow> store \<Rightarrow> bool \<times> int64" where
  "GetAmount r name class s =
     (case r of
        None \<Rightarrow> (False, 0)
      | Some p \<Rightarrow>
          (case vars s ! p of
             None \<Rightarrow> (False, 0)
           | Some m \<Rightarrow>
               (case map_of (ledgers s ! m) name of
                  None \<Rightarrow> (False, 0)
                | Some t \<Rightarrow>
                    (case map_of (total_at s t) class of
                       Some amount \<Rightarrow> (True, amount)
                     | None \<Rightarrow> (False, 0)))))"

text \<open>
  \<^verbatim>\<open>Sum\<close>. The outer \<^verbatim>\<open>range\<close> visits the entries that the ledger map of \<open>r2\<close> has when
  the loop starts, the inner one those that the class counter has when the inner loop
  starts. Both are exact also when the two ledgers share map objects: \<^verbatim>\<open>add\<close> inserts a
  key only into a map in which the key is missing, and the keys it is called with here are
  the visited ones, so a map under iteration only ever has the value of the entry being
  visited changed.
\<close>

fun Sum_classes ::
  "nat option \<Rightarrow> bool \<Rightarrow> QOSResourceName \<Rightarrow> QOSResourceTotal \<Rightarrow> store \<Rightarrow> store" where
  "Sum_classes r adding resName [] s = s"
| "Sum_classes r adding resName ((clsName, clsAmount) # rest) s =
     Sum_classes r adding resName rest
       (if adding then add r resName clsName clsAmount s
        else add r resName clsName (- 1 * clsAmount) s)"

fun Sum_resources :: "nat option \<Rightarrow> bool \<Rightarrow> QOSResourcesTotal \<Rightarrow> store \<Rightarrow> store" where
  "Sum_resources r adding [] s = s"
| "Sum_resources r adding ((resName, resTotal) # rest) s =
     Sum_resources r adding rest (Sum_classes r adding resName (total_at s resTotal) s)"

definition Sum :: "nat option \<Rightarrow> nat option \<Rightarrow> bool \<Rightarrow> store \<Rightarrow> store" where
  "Sum r r2 adding s =
     (case r of
        None \<Rightarrow> s
      | Some p \<Rightarrow>
          (case r2 of
             None \<Rightarrow> s
           | Some p2 \<Rightarrow> Sum_resources r adding (ledger_at s (vars s ! p2)) s))"

text \<open>
  \<^verbatim>\<open>Clone\<close>: \<open>m\<close> is the map made for the variable \<^verbatim>\<open>out\<close>, whose address is
  returned (\<^verbatim>\<open>&out\<close>). The loops only write to maps made here, so they visit the
  entries that the source has when they start.
\<close>

fun Clone_classes :: "nat \<Rightarrow> QOSResourceTotal \<Rightarrow> store \<Rightarrow> store" where
  "Clone_classes classes [] s = s"
| "Clone_classes classes ((c, amount) # rest) s =
     Clone_classes classes rest (set_total_entry classes c amount s)"

fun Clone_resources :: "nat \<Rightarrow> QOSResourcesTotal \<Rightarrow> store \<Rightarrow> store" where
  "Clone_resources out [] s = s"
| "Clone_resources out ((k, v) # rest) s =
     (let (classes, s1) = make_total s;
          s2 = Clone_classes classes (total_at s1 v) s1
      in Clone_resources out rest (set_ledger_entry out k (Some classes) s2))"

definition Clone :: "nat option \<Rightarrow> store \<Rightarrow> nat option \<times> store" where
  "Clone r s =
     (case r of
        None \<Rightarrow> (None, s)
      | Some p \<Rightarrow>
          let (m, s1) = make_ledger s;
              (out, s2) = new_var (Some m) s1
          in (Some out, Clone_resources m (ledger_at s2 (vars s2 ! p)) s2))"

text \<open>
  \<^verbatim>\<open>QOSResourcesTotalFromInfo\<close> and \<^verbatim>\<open>PodQOSResourceRequests\<close> return map values held
  in local variables (\<^verbatim>\<open>out\<close>, \<^verbatim>\<open>podReqs\<close>, \<^verbatim>\<open>containerReqs\<close>). The model returns
  the addresses of these variables, which then stand for the variables that the caller
  assigns the results to and calls the methods on.
\<close>

fun FromInfo_classes :: "nat \<Rightarrow> QOSResourceClassInfo list \<Rightarrow> store \<Rightarrow> store" where
  "FromInfo_classes classes [] s = s"
| "FromInfo_classes classes (c # rest) s =
     FromInfo_classes classes rest (set_total_entry classes (ClassName c) (Capacity c) s)"

fun FromInfo_resources :: "nat \<Rightarrow> QOSResourceInfo list \<Rightarrow> store \<Rightarrow> store" where
  "FromInfo_resources out [] s = s"
| "FromInfo_resources out (qr # rest) s =
     (let (classes, s1) = make_total s;
          s2 = FromInfo_classes classes (Classes qr) s1
      in FromInfo_resources out rest (set_ledger_entry out (InfoName qr) (Some classes) s2))"

definition QOSResourcesTotalFromInfo :: "QOSResourceInfo list \<Rightarrow> store \<Rightarrow> nat \<times> store" where
  "QOSResourcesTotalFromInfo infos s =
     (let (m, s1) = make_ledger s;
          (out, s2) = new_var (Some m) s1
      in (out, FromInfo_resources m infos s2))"

fun add_containers :: "nat option \<Rightarrow> Container list \<Rightarrow> store \<Rightarrow> store" where
  "add_containers r [] s = s"
| "add_containers r (container # rest) s =
     add_containers r rest (AddContainerQOSResources r (QOSResources (Resources container)) s)"

fun set_max_containers :: "nat option \<Rightarrow> Container list \<Rightarrow> store \<Rightarrow> store" where
  "set_max_containers r [] s = s"
| "set_max_containers r (container # rest) s =
     set_max_containers r rest
       (SetMaxContainerQOSResources r (QOSResources (Resources container)) s)"

text \<open>The pod is passed as a pointer; reading \<^verbatim>\<open>pod.Spec\<close> through nil panics.\<close>

definition PodQOSResourceRequests :: "Pod option \<Rightarrow> store \<Rightarrow> panic + (nat \<times> nat \<times> store)" where
  "PodQOSResourceRequests pod s =
     (let (m1, s1) = make_ledger s;
          (podReqs, s2) = new_var (Some m1) s1;
          (m2, s3) = make_ledger s2;
          (containerReqs, s4) = new_var (Some m2) s3
      in case pod of
           None \<Rightarrow> Inl NilPointerDereference
         | Some pd \<Rightarrow>
             let s5 = AddPodQOSResources (Some podReqs) (PodQOSResources (Spec pd)) s4;
                 s6 = add_containers (Some containerReqs) (Containers (Spec pd)) s5;
                 s7 = set_max_containers (Some containerReqs) (InitContainers (Spec pd)) s6
             in Inr (podReqs, containerReqs, s7))"

section \<open>Well-formed stores and the ledgers in them\<close>

text \<open>
  The invariant of the store. Every reference points to an allocated object and the keys
  of a map are distinct: this much the Go runtime guarantees. Moreover every map object
  has one owner, so that the store is a forest: a ledger map is held by at most one
  variable, and a class counter is the value of at most one entry of one ledger map.
  The functions of this package maintain this, since the only maps they store are maps
  they have just made; it is the sense in which the ledgers of a store are independent
  values that share no backing storage.
\<close>

definition wf_store :: "store \<Rightarrow> bool" where
  "wf_store s \<longleftrightarrow>
     (\<forall>p \<in> set [0..<length (vars s)]. \<forall>m \<in> set_option (vars s ! p).
        m < length (ledgers s) \<and>
        (\<forall>q \<in> set [0..<length (vars s)]. vars s ! q = Some m \<longrightarrow> q = p)) \<and>
     (\<forall>m \<in> set [0..<length (ledgers s)].
        distinct (map fst (ledgers s ! m)) \<and>
        (\<forall>(name, v) \<in> set (ledgers s ! m). \<forall>t \<in> set_option v.
           t < length (totals s) \<and>
           (\<forall>m' \<in> set [0..<length (ledgers s)]. \<forall>(name', v') \<in> set (ledgers s ! m').
              v' = Some t \<longrightarrow> m' = m \<and> name' = name))) \<and>
     (\<forall>t \<in> set [0..<length (totals s)]. distinct (map fst (totals s ! t)))"

text \<open>
  A receiver or an argument of an operation points to a variable of the store, or is nil.
\<close>

definition valid_ptr :: "store \<Rightarrow> nat option \<Rightarrow> bool" where
  "valid_ptr s r = (case r of None \<Rightarrow> True | Some p \<Rightarrow> p < length (vars s))"

text \<open>
  The first two statements of \<^verbatim>\<open>add\<close> on their own, to reason about \<^verbatim>\<open>add\<close> step by
  step.
\<close>

definition ensure_ledger :: "nat \<Rightarrow> store \<Rightarrow> nat \<times> store" where
  "ensure_ledger p s =
     (case vars s ! p of
        None \<Rightarrow> (let (m, s') = make_ledger s in (m, set_var p (Some m) s'))
      | Some m \<Rightarrow> (m, s))"

definition ensure_total :: "nat \<Rightarrow> QOSResourceName \<Rightarrow> store \<Rightarrow> nat \<times> store" where
  "ensure_total m name s =
     (case ledger_index s (Some m) name of
        None \<Rightarrow> (let (t, s') = make_total s in (t, set_ledger_entry m name (Some t) s'))
      | Some t \<Rightarrow> (t, s))"

text \<open>
  \<open>same_ledger q s s'\<close>: the ledger of variable \<open>q\<close> has the same representation in
  \<open>s'\<close> as in \<open>s\<close>, down to the order of the entries. \<open>frames p f\<close>: the store
  transformer \<open>f\<close> keeps the store well formed and changes the ledger of no variable
  other than \<open>p\<close>. \<open>keeps p f\<close>: moreover, every key found in the ledger of \<open>p\<close> is
  still found after \<open>f\<close>.
\<close>

definition same_ledger :: "nat \<Rightarrow> store \<Rightarrow> store \<Rightarrow> bool" where
  "same_ledger q s s' \<longleftrightarrow>
     vars s' ! q = vars s ! q \<and>
     ledger_at s' (vars s ! q) = ledger_at s (vars s ! q) \<and>
     (\<forall>(n, v) \<in> set (ledger_at s (vars s ! q)). total_at s' v = total_at s v)"

definition frames :: "nat \<Rightarrow> (store \<Rightarrow> store) \<Rightarrow> bool" where
  "frames p f \<longleftrightarrow>
     (\<forall>s. wf_store s \<and> p < length (vars s) \<longrightarrow>
        wf_store (f s) \<and> length (vars (f s)) = length (vars s) \<and>
        (\<forall>q < length (vars s). q \<noteq> p \<longrightarrow> same_ledger q s (f s)))"

definition keeps :: "nat \<Rightarrow> (store \<Rightarrow> store) \<Rightarrow> bool" where
  "keeps p f \<longleftrightarrow>
     frames p f \<and>
     (\<forall>s. wf_store s \<and> p < length (vars s) \<longrightarrow>
        (\<forall>n c. fst (GetAmount (Some p) n c s) \<longrightarrow> fst (GetAmount (Some p) n c (f s))))"

text \<open>
  The (resource, class) pairs of a request list, the requests of a list of containers in
  order, and the declaration of a variable that holds a new, empty ledger map.
\<close>

definition pairs :: "QOSResourceRequest list \<Rightarrow> (QOSResourceName \<times> string) list" where
  "pairs qrl = map (\<lambda>qr. (Name qr, Class qr)) qrl"

definition container_requests :: "Container list \<Rightarrow> QOSResourceRequest list" where
  "container_requests cs = concat (map (\<lambda>c. QOSResources (Resources c)) cs)"

definition declare_ledger :: "store \<Rightarrow> store" where
  "declare_ledger s = s\<lparr>ledgers := ledgers s @ [[]], vars := vars s @ [Some (length (ledgers s))]\<rparr>"

text \<open>
  What \<^verbatim>\<open>Sum\<close> merges: the (resource, class, amount) triples that the two loops visit
  for a list of ledger entries, and the sum of the amounts that the triples carry for one
  pair. The sum does not depend on the order of the triples (\<open>amount_in_perm\<close>), so
  that the order in which \<^verbatim>\<open>range\<close> visits a map does not show in the amounts.
\<close>

definition Sum_entries :: "store \<Rightarrow> QOSResourcesTotal \<Rightarrow> (QOSResourceName \<times> string \<times> int64) list" where
  "Sum_entries s rs =
     concat (map (\<lambda>(resName, resTotal). map (\<lambda>(c, a). (resName, c, a)) (total_at s resTotal)) rs)"

definition amount_in :: "(QOSResourceName \<times> string \<times> int64) list \<Rightarrow> QOSResourceName \<Rightarrow> string \<Rightarrow> int64" where
  "amount_in es n c = sum_list (map (\<lambda>(n', c', a). if n' = n \<and> c' = c then a else 0) es)"

text \<open>
  The step of the outer loops of \<^verbatim>\<open>QOSResourcesTotalFromInfo\<close> and \<^verbatim>\<open>Clone\<close>: a new
  class counter with contents \<open>l\<close> becomes the value of key \<open>k\<close> of the ledger map
  \<open>m\<close>. \<open>lookup_amount\<close> is the lookup of a class in the contents of a counter,
  with the result of \<^verbatim>\<open>GetAmount\<close>.
\<close>

definition install :: "nat \<Rightarrow> QOSResourceName \<Rightarrow> QOSResourceTotal \<Rightarrow> store \<Rightarrow> store" where
  "install m k l s =
     s\<lparr>totals := totals s @ [l],
       ledgers := (ledgers s)[m := AList.update k (Some (length (totals s))) (ledgers s ! m)]\<rparr>"

definition lookup_amount :: "QOSResourceTotal \<Rightarrow> string \<Rightarrow> bool \<times> int64" where
  "lookup_amount l c = (case map_of l c of None \<Rightarrow> (False, 0) | Some a \<Rightarrow> (True, a))"

text \<open>
  The capacity information as lists of pairs. \<open>last_seen xs k\<close> is the value of the
  last pair of \<open>xs\<close> with key \<open>k\<close>.
\<close>

definition info_classes :: "QOSResourceInfo list \<Rightarrow> (QOSResourceName \<times> QOSResourceClassInfo list) list" where
  "info_classes infos = map (\<lambda>qr. (InfoName qr, Classes qr)) infos"

definition class_capacities :: "QOSResourceClassInfo list \<Rightarrow> (string \<times> int64) list" where
  "class_capacities cs = map (\<lambda>c. (ClassName c, Capacity c)) cs"

definition last_seen :: "('k \<times> 'v) list \<Rightarrow> 'k \<Rightarrow> 'v option" where
  "last_seen xs k = map_of (rev xs) k"

text \<open>
  Sequences of mutating operations, each with its receiver.
\<close>

datatype operation =
    Op_add "nat option" QOSResourceName string int64
  | Op_AddPodQOSResources "nat option" "PodQOSResourceRequest list"
  | Op_AddContainerQOSResources "nat option" "QOSResourceRequest list"
  | Op_SetMaxContainerQOSResources "nat option" "QOSResourceRequest list"
  | Op_Sum "nat option" "nat option" bool

fun receiver :: "operation \<Rightarrow> nat option" where
  "receiver (Op_add r name class amount) = r"
| "receiver (Op_AddPodQOSResources r qrl) = r"
| "receiver (Op_AddContainerQOSResources r qrl) = r"
| "receiver (Op_SetMaxContainerQOSResources r qrl) = r"
| "receiver (Op_Sum r r2 adding) = r"

fun apply_op :: "operation \<Rightarrow> store \<Rightarrow> store" where
  "apply_op (Op_add r name class amount) s = add r name class amount s"
| "apply_op (Op_AddPodQOSResources r qrl) s = AddPodQOSResources r qrl s"
| "apply_op (Op_AddContainerQOSResources r qrl) s = AddContainerQOSResources r qrl s"
| "apply_op (Op_SetMaxContainerQOSResources r qrl) s = SetMaxContainerQOSResources r qrl s"
| "apply_op (Op_Sum r r2 adding) s = Sum r r2 adding s"

fun apply_ops :: "operation list \<Rightarrow> store \<Rightarrow> store" where
  "apply_ops [] s = s"
| "apply_ops (x # xs) s = apply_ops xs (apply_op x s)"

section \<open>Properties of well-formed stores\<close>

lemma wf_store_iff:
  "wf_store s \<longleftrightarrow>
     (\<forall>p m. p < length (vars s) \<longrightarrow> vars s ! p = Some m \<longrightarrow> m < length (ledgers s)) \<and>
     (\<forall>p q m. p < length (vars s) \<longrightarrow> q < length (vars s) \<longrightarrow>
        vars s ! p = Some m \<longrightarrow> vars s ! q = Some m \<longrightarrow> q = p) \<and>
     (\<forall>m < length (ledgers s). distinct (map fst (ledgers s ! m))) \<and>
     (\<forall>m name t. m < length (ledgers s) \<longrightarrow> (name, Some t) \<in> set (ledgers s ! m) \<longrightarrow>
        t < length (totals s)) \<and>
     (\<forall>m name m' name' t. m < length (ledgers s) \<longrightarrow> m' < length (ledgers s) \<longrightarrow>
        (name, Some t) \<in> set (ledgers s ! m) \<longrightarrow>
        (name', Some t) \<in> set (ledgers s ! m') \<longrightarrow> m' = m \<and> name' = name) \<and>
     (\<forall>t < length (totals s). distinct (map fst (totals s ! t)))"
proof -
  have A: "(\<forall>p \<in> set [0..<length (vars s)]. \<forall>m \<in> set_option (vars s ! p).
        m < length (ledgers s) \<and>
        (\<forall>q \<in> set [0..<length (vars s)]. vars s ! q = Some m \<longrightarrow> q = p)) \<longleftrightarrow>
     (\<forall>p m. p < length (vars s) \<longrightarrow> vars s ! p = Some m \<longrightarrow> m < length (ledgers s)) \<and>
     (\<forall>p q m. p < length (vars s) \<longrightarrow> q < length (vars s) \<longrightarrow>
        vars s ! p = Some m \<longrightarrow> vars s ! q = Some m \<longrightarrow> q = p)"
    by (simp only: set_upt atLeastLessThan_iff Ball_def elem_set le0 simp_thms) blast
  have B: "(\<forall>m \<in> set [0..<length (ledgers s)].
        distinct (map fst (ledgers s ! m)) \<and>
        (\<forall>(name, v) \<in> set (ledgers s ! m). \<forall>t \<in> set_option v.
           t < length (totals s) \<and>
           (\<forall>m' \<in> set [0..<length (ledgers s)]. \<forall>(name', v') \<in> set (ledgers s ! m').
              v' = Some t \<longrightarrow> m' = m \<and> name' = name))) \<longleftrightarrow>
     (\<forall>m < length (ledgers s). distinct (map fst (ledgers s ! m))) \<and>
     (\<forall>m name t. m < length (ledgers s) \<longrightarrow> (name, Some t) \<in> set (ledgers s ! m) \<longrightarrow>
        t < length (totals s)) \<and>
     (\<forall>m name m' name' t. m < length (ledgers s) \<longrightarrow> m' < length (ledgers s) \<longrightarrow>
        (name, Some t) \<in> set (ledgers s ! m) \<longrightarrow>
        (name', Some t) \<in> set (ledgers s ! m') \<longrightarrow> m' = m \<and> name' = name)"
    apply (simp only: set_upt atLeastLessThan_iff Ball_def split_paired_All case_prod_conv
        elem_set le0 simp_thms)
    apply (rule iffI)
     apply (intro conjI allI impI)
        apply blast
       apply blast
      apply blast
     apply blast
    apply (intro conjI allI impI)
      apply blast
     apply blast
     apply blast
    apply blast
    done
  have C: "(\<forall>t \<in> set [0..<length (totals s)]. distinct (map fst (totals s ! t))) \<longleftrightarrow>
     (\<forall>t < length (totals s). distinct (map fst (totals s ! t)))"
    by auto
  show ?thesis unfolding wf_store_def A B C by (simp only: conj_assoc)
qed

lemma wf_var_ref:
  "wf_store s \<Longrightarrow> p < length (vars s) \<Longrightarrow> vars s ! p = Some m \<Longrightarrow> m < length (ledgers s)"
  unfolding wf_store_iff by blast

lemma wf_var_inj:
  "wf_store s \<Longrightarrow> p < length (vars s) \<Longrightarrow> q < length (vars s) \<Longrightarrow>
   vars s ! p = Some m \<Longrightarrow> vars s ! q = Some m \<Longrightarrow> q = p"
  unfolding wf_store_iff by blast

lemma wf_ledger_distinct:
  "wf_store s \<Longrightarrow> m < length (ledgers s) \<Longrightarrow> distinct (map fst (ledgers s ! m))"
  unfolding wf_store_iff by blast

lemma wf_total_distinct:
  "wf_store s \<Longrightarrow> t < length (totals s) \<Longrightarrow> distinct (map fst (totals s ! t))"
  unfolding wf_store_iff by blast

lemma wf_total_ref:
  "wf_store s \<Longrightarrow> m < length (ledgers s) \<Longrightarrow> (name, Some t) \<in> set (ledgers s ! m) \<Longrightarrow>
   t < length (totals s)"
  unfolding wf_store_iff by blast

lemma wf_total_inj:
  "wf_store s \<Longrightarrow> m < length (ledgers s) \<Longrightarrow> m' < length (ledgers s) \<Longrightarrow>
   (name, Some t) \<in> set (ledgers s ! m) \<Longrightarrow> (name', Some t) \<in> set (ledgers s ! m') \<Longrightarrow>
   m' = m \<and> name' = name"
  unfolding wf_store_iff by blast

lemma wf_storeI:
  assumes "\<And>p m. p < length (vars s) \<Longrightarrow> vars s ! p = Some m \<Longrightarrow> m < length (ledgers s)"
    and "\<And>p q m. p < length (vars s) \<Longrightarrow> q < length (vars s) \<Longrightarrow>
        vars s ! p = Some m \<Longrightarrow> vars s ! q = Some m \<Longrightarrow> q = p"
    and "\<And>m. m < length (ledgers s) \<Longrightarrow> distinct (map fst (ledgers s ! m))"
    and "\<And>m name t. m < length (ledgers s) \<Longrightarrow> (name, Some t) \<in> set (ledgers s ! m) \<Longrightarrow>
        t < length (totals s)"
    and "\<And>m name m' name' t. m < length (ledgers s) \<Longrightarrow> m' < length (ledgers s) \<Longrightarrow>
        (name, Some t) \<in> set (ledgers s ! m) \<Longrightarrow>
        (name', Some t) \<in> set (ledgers s ! m') \<Longrightarrow> m' = m \<and> name' = name"
    and "\<And>t. t < length (totals s) \<Longrightarrow> distinct (map fst (totals s ! t))"
  shows "wf_store s"
  unfolding wf_store_iff using assms by blast

lemma in_set_update:
  assumes "distinct (map fst al)"
  shows "(k', v') \<in> set (AList.update k v al) \<longleftrightarrow> (if k' = k then v' = v else (k', v') \<in> set al)"
proof -
  have "(k', v') \<in> set (AList.update k v al) \<longleftrightarrow> map_of (AList.update k v al) k' = Some v'"
    using distinct_update[OF assms, of k v] by simp
  also have "\<dots> \<longleftrightarrow> (if k' = k then v' = v else map_of al k' = Some v')"
    by (auto simp: update_conv')
  also have "\<dots> \<longleftrightarrow> (if k' = k then v' = v else (k', v') \<in> set al)"
    using assms by simp
  finally show ?thesis .
qed

subsection \<open>The store primitives keep the store well formed\<close>

lemma wf_new_ledger:
  assumes wf: "wf_store s" and p: "p < length (vars s)" and nil: "vars s ! p = None"
  shows "wf_store (s\<lparr>ledgers := ledgers s @ [[]], vars := (vars s)[p := Some (length (ledgers s))]\<rparr>)"
    (is "wf_store ?s1")
proof (rule wf_storeI)
  fix p' m' assume a: "p' < length (vars ?s1)" "vars ?s1 ! p' = Some m'"
  show "m' < length (ledgers ?s1)"
  proof (cases "p' = p")
    case True with a p show ?thesis by simp
  next
    case False
    with a have "vars s ! p' = Some m'" "p' < length (vars s)" by simp_all
    from wf_var_ref[OF wf this(2,1)] show ?thesis by simp
  qed
next
  fix p' q m' assume a: "p' < length (vars ?s1)" "q < length (vars ?s1)"
    "vars ?s1 ! p' = Some m'" "vars ?s1 ! q = Some m'"
  have fresh: "\<And>x. x < length (vars s) \<Longrightarrow> vars s ! x \<noteq> Some (length (ledgers s))"
    using wf_var_ref[OF wf] by fastforce
  show "q = p'"
  proof (cases "p' = p"; cases "q = p")
    assume "p' \<noteq> p" "q \<noteq> p"
    with a have "vars s ! p' = Some m'" "vars s ! q = Some m'" "p' < length (vars s)" "q < length (vars s)"
      by simp_all
    from wf_var_inj[OF wf this(3,4,1,2)] show ?thesis .
  qed (use a p fresh in \<open>auto simp: nth_list_update\<close>)
next
  fix m' assume "m' < length (ledgers ?s1)"
  then show "distinct (map fst (ledgers ?s1 ! m'))"
    using wf_ledger_distinct[OF wf, of m'] by (cases "m' = length (ledgers s)") (simp_all add: nth_append)
next
  fix m' name t assume "m' < length (ledgers ?s1)" "(name, Some t) \<in> set (ledgers ?s1 ! m')"
  then show "t < length (totals ?s1)"
    using wf_total_ref[OF wf, of m' name t] by (cases "m' = length (ledgers s)") (simp_all add: nth_append)
next
  fix m' name m'' name' t
  assume "m' < length (ledgers ?s1)" "m'' < length (ledgers ?s1)"
    "(name, Some t) \<in> set (ledgers ?s1 ! m')" "(name', Some t) \<in> set (ledgers ?s1 ! m'')"
  then show "m'' = m' \<and> name' = name"
    using wf_total_inj[OF wf, of m' m'' name t name']
    by (cases "m' = length (ledgers s)"; cases "m'' = length (ledgers s)") (simp_all add: nth_append)
next
  fix t assume "t < length (totals ?s1)"
  then show "distinct (map fst (totals ?s1 ! t))" using wf_total_distinct[OF wf, of t] by simp
qed

lemma wf_new_total:
  assumes wf: "wf_store s" and m: "m < length (ledgers s)" and dl: "distinct (map fst l)"
  shows "wf_store (s\<lparr>totals := totals s @ [l],
            ledgers := (ledgers s)[m := AList.update name (Some (length (totals s))) (ledgers s ! m)]\<rparr>)"
    (is "wf_store ?s2")
proof -
  have dm: "distinct (map fst (ledgers s ! m))" using wf_ledger_distinct[OF wf m] .
  have mem: "\<And>m' n t. m' < length (ledgers s) \<Longrightarrow> (n, Some t) \<in> set (ledgers ?s2 ! m') \<longleftrightarrow>
      (if m' = m \<and> n = name then t = length (totals s) else (n, Some t) \<in> set (ledgers s ! m'))"
    using m by (auto simp: nth_list_update in_set_update[OF dm])
  have old: "\<And>m' n t. m' < length (ledgers s) \<Longrightarrow> (n, Some t) \<in> set (ledgers s ! m') \<Longrightarrow>
      t < length (totals s)"
    using wf_total_ref[OF wf] by blast
  show ?thesis
  proof (rule wf_storeI)
    fix p' m' assume "p' < length (vars ?s2)" "vars ?s2 ! p' = Some m'"
    then show "m' < length (ledgers ?s2)" using wf_var_ref[OF wf, of p' m'] by simp
  next
    fix p' q m' assume "p' < length (vars ?s2)" "q < length (vars ?s2)"
      "vars ?s2 ! p' = Some m'" "vars ?s2 ! q = Some m'"
    then show "q = p'" using wf_var_inj[OF wf, of p' q m'] by simp
  next
    fix m' assume "m' < length (ledgers ?s2)"
    then show "distinct (map fst (ledgers ?s2 ! m'))"
      using wf_ledger_distinct[OF wf, of m'] distinct_update[OF dm]
      by (cases "m' = m") (simp_all add: nth_list_update)
  next
    fix m' n t assume a: "m' < length (ledgers ?s2)" "(n, Some t) \<in> set (ledgers ?s2 ! m')"
    then have m': "m' < length (ledgers s)" by simp
    from a(2) show "t < length (totals ?s2)"
      unfolding mem[OF m'] using old[OF m', of n t] by (auto split: if_splits)
  next
    fix m' n m'' n' t
    assume a: "m' < length (ledgers ?s2)" "m'' < length (ledgers ?s2)"
      "(n, Some t) \<in> set (ledgers ?s2 ! m')" "(n', Some t) \<in> set (ledgers ?s2 ! m'')"
    then have m': "m' < length (ledgers s)" and m'': "m'' < length (ledgers s)" by simp_all
    show "m'' = m' \<and> n' = n"
    proof (cases "t = length (totals s)")
      case True
      with a(3,4) old[OF m', of n t] old[OF m'', of n' t] show ?thesis
        unfolding mem[OF m'] mem[OF m''] by (simp split: if_splits)
    next
      case False
      with a(3,4) have "(n, Some t) \<in> set (ledgers s ! m')" "(n', Some t) \<in> set (ledgers s ! m'')"
        unfolding mem[OF m'] mem[OF m''] by (simp_all split: if_splits)
      then show ?thesis by (rule wf_total_inj[OF wf m' m''])
    qed
  next
    fix t assume "t < length (totals ?s2)"
    then show "distinct (map fst (totals ?s2 ! t))"
      using wf_total_distinct[OF wf, of t] dl
      by (cases "t = length (totals s)") (simp_all add: nth_append)
  qed
qed

lemma wf_set_total_entry:
  assumes wf: "wf_store s"
  shows "wf_store (set_total_entry t class v s)" (is "wf_store ?s3")
proof -
  have v: "vars ?s3 = vars s" and l: "ledgers ?s3 = ledgers s"
    and n: "length (totals ?s3) = length (totals s)"
    by (simp_all add: set_total_entry_def)
  show ?thesis
  proof (rule wf_storeI)
    fix t' assume "t' < length (totals ?s3)"
    then show "distinct (map fst (totals ?s3 ! t'))"
      using wf_total_distinct[OF wf, of t'] distinct_update[of "totals s ! t" "class" v]
      by (cases "t' = t") (simp_all add: set_total_entry_def nth_list_update)
  next
    fix p m assume "p < length (vars ?s3)" "vars ?s3 ! p = Some m"
    then show "m < length (ledgers ?s3)" unfolding v l by (rule wf_var_ref[OF wf])
  next
    fix p q m assume "p < length (vars ?s3)" "q < length (vars ?s3)"
      "vars ?s3 ! p = Some m" "vars ?s3 ! q = Some m"
    then show "q = p" unfolding v by (rule wf_var_inj[OF wf])
  next
    fix m assume "m < length (ledgers ?s3)"
    then show "distinct (map fst (ledgers ?s3 ! m))" unfolding l by (rule wf_ledger_distinct[OF wf])
  next
    fix m name t' assume "m < length (ledgers ?s3)" "(name, Some t') \<in> set (ledgers ?s3 ! m)"
    then show "t' < length (totals ?s3)" unfolding l n by (rule wf_total_ref[OF wf])
  next
    fix m name m' name' t'
    assume "m < length (ledgers ?s3)" "m' < length (ledgers ?s3)"
      "(name, Some t') \<in> set (ledgers ?s3 ! m)" "(name', Some t') \<in> set (ledgers ?s3 ! m')"
    then show "m' = m \<and> name' = name" unfolding l by (rule wf_total_inj[OF wf])
  qed
qed

lemma wf_declare_ledger:
  assumes wf: "wf_store s"
  shows "wf_store (declare_ledger s)" (is "wf_store ?s1")
proof (rule wf_storeI)
  fix p' m' assume a: "p' < length (vars ?s1)" "vars ?s1 ! p' = Some m'"
  show "m' < length (ledgers ?s1)"
  proof (cases "p' = length (vars s)")
    case True with a show ?thesis by (simp add: declare_ledger_def)
  next
    case False
    with a have "vars s ! p' = Some m'" "p' < length (vars s)"
      by (simp_all add: declare_ledger_def nth_append)
    from wf_var_ref[OF wf this(2,1)] show ?thesis by (simp add: declare_ledger_def)
  qed
next
  fix p' q m' assume a: "p' < length (vars ?s1)" "q < length (vars ?s1)"
    "vars ?s1 ! p' = Some m'" "vars ?s1 ! q = Some m'"
  have fresh: "\<And>x. x < length (vars s) \<Longrightarrow> vars s ! x \<noteq> Some (length (ledgers s))"
    using wf_var_ref[OF wf] by fastforce
  show "q = p'"
  proof (cases "p' = length (vars s)"; cases "q = length (vars s)")
    assume "p' \<noteq> length (vars s)" "q \<noteq> length (vars s)"
    with a have "vars s ! p' = Some m'" "vars s ! q = Some m'" "p' < length (vars s)" "q < length (vars s)"
      by (simp_all add: declare_ledger_def nth_append)
    from wf_var_inj[OF wf this(3,4,1,2)] show ?thesis .
  qed (use a fresh in \<open>auto simp: declare_ledger_def nth_append split: if_splits\<close>)
next
  fix m' assume "m' < length (ledgers ?s1)"
  then show "distinct (map fst (ledgers ?s1 ! m'))"
    using wf_ledger_distinct[OF wf, of m']
    by (cases "m' = length (ledgers s)") (simp_all add: declare_ledger_def nth_append)
next
  fix m' name t assume "m' < length (ledgers ?s1)" "(name, Some t) \<in> set (ledgers ?s1 ! m')"
  then show "t < length (totals ?s1)"
    using wf_total_ref[OF wf, of m' name t]
    by (cases "m' = length (ledgers s)") (simp_all add: declare_ledger_def nth_append)
next
  fix m' name m'' name' t
  assume "m' < length (ledgers ?s1)" "m'' < length (ledgers ?s1)"
    "(name, Some t) \<in> set (ledgers ?s1 ! m')" "(name', Some t) \<in> set (ledgers ?s1 ! m'')"
  then show "m'' = m' \<and> name' = name"
    using wf_total_inj[OF wf, of m' m'' name t name']
    by (cases "m' = length (ledgers s)"; cases "m'' = length (ledgers s)")
       (simp_all add: declare_ledger_def nth_append)
next
  fix t assume "t < length (totals ?s1)"
  then show "distinct (map fst (totals ?s1 ! t))"
    using wf_total_distinct[OF wf, of t] by (simp add: declare_ledger_def)
qed

subsection \<open>Ledgers that an operation does not touch\<close>

lemma same_ledger_refl: "same_ledger q s s"
  by (simp add: same_ledger_def)

lemma same_ledger_trans:
  "same_ledger q s s1 \<Longrightarrow> same_ledger q s1 s2 \<Longrightarrow> same_ledger q s s2"
  by (fastforce simp: same_ledger_def)

lemma same_ledger_GetAmount:
  assumes "same_ledger q s s'"
  shows "GetAmount (Some q) n c s' = GetAmount (Some q) n c s"
proof (cases "vars s ! q")
  case None
  with assms show ?thesis by (simp add: GetAmount_def same_ledger_def)
next
  case (Some m)
  with assms have l: "ledgers s' ! m = ledgers s ! m"
    and t: "\<And>v. (n, v) \<in> set (ledgers s ! m) \<Longrightarrow> total_at s' v = total_at s v"
    and v: "vars s' ! q = Some m"
    by (auto simp: same_ledger_def ledger_at_def)
  show ?thesis
  proof (cases "map_of (ledgers s ! m) n")
    case None
    then show ?thesis using Some v l by (simp add: GetAmount_def)
  next
    case (Some w)
    then have "total_at s' w = total_at s w" using t map_of_SomeD by fastforce
    then show ?thesis using Some \<open>vars s ! q = Some m\<close> v l by (simp add: GetAmount_def)
  qed
qed

lemma same_ledger_new_ledger:
  assumes wf: "wf_store s" and q: "q < length (vars s)" and ne: "q \<noteq> p"
  shows "same_ledger q s (s\<lparr>ledgers := ledgers s @ [[]], vars := (vars s)[p := Some (length (ledgers s))]\<rparr>)"
proof -
  have "vars s ! q = Some m \<Longrightarrow> m < length (ledgers s)" for m
    using wf_var_ref[OF wf q] .
  then show ?thesis using ne
    by (auto simp: same_ledger_def ledger_at_def total_at_def nth_append split: option.splits)
qed

lemma same_ledger_new_total:
  assumes wf: "wf_store s" and q: "q < length (vars s)" and m: "vars s ! q \<noteq> Some m"
  shows "same_ledger q s (s\<lparr>totals := totals s @ [l'],
            ledgers := (ledgers s)[m := l]\<rparr>)"
proof (cases "vars s ! q")
  case None
  then show ?thesis by (simp add: same_ledger_def ledger_at_def)
next
  case (Some mq)
  then have mq: "mq < length (ledgers s)" "mq \<noteq> m" using wf_var_ref[OF wf q] m by auto
  have "t < length (totals s)" if "(n, Some t) \<in> set (ledgers s ! mq)" for n t
    using wf_total_ref[OF wf mq(1) that] .
  then show ?thesis using Some mq
    by (auto simp: same_ledger_def ledger_at_def total_at_def nth_append split: option.splits)
qed

lemma same_ledger_set_total_entry:
  assumes wf: "wf_store s" and q: "q < length (vars s)" and m: "vars s ! q \<noteq> Some m"
    and ml: "m < length (ledgers s)" and t: "(name, Some t) \<in> set (ledgers s ! m)"
  shows "same_ledger q s (set_total_entry t class v s)"
proof (cases "vars s ! q")
  case None
  then show ?thesis by (simp add: same_ledger_def ledger_at_def set_total_entry_def)
next
  case (Some mq)
  then have mq: "mq < length (ledgers s)" "mq \<noteq> m" using wf_var_ref[OF wf q] m by auto
  have "t' \<noteq> t" if "(n, Some t') \<in> set (ledgers s ! mq)" for n t'
    using wf_total_inj[OF wf mq(1) ml that, of name] t mq(2) by auto
  then have "(totals s)[t := x] ! t' = totals s ! t'" if "(n, Some t') \<in> set (ledgers s ! mq)"
    for n t' x using that by (metis nth_list_update_neq)
  then show ?thesis using Some mq
    by (auto simp: same_ledger_def ledger_at_def total_at_def set_total_entry_def
        split: option.splits)
qed

lemma declare_ledger_eq:
  "(case make_ledger s of (m, s1) \<Rightarrow> new_var (Some m) s1) = (length (vars s), declare_ledger s)"
  by (simp add: make_ledger_def new_var_def declare_ledger_def)

lemma declare_ledger_props:
  assumes wf: "wf_store s"
  shows "length (vars (declare_ledger s)) = Suc (length (vars s))"
    and "vars (declare_ledger s) ! length (vars s) = Some (length (ledgers s))"
    and "ledgers (declare_ledger s) ! length (ledgers s) = []"
    and "\<And>n c. GetAmount (Some (length (vars s))) n c (declare_ledger s) = (False, 0)"
    and "\<And>q. q < length (vars s) \<Longrightarrow> same_ledger q s (declare_ledger s)"
proof -
  show "same_ledger q s (declare_ledger s)" if "q < length (vars s)" for q
  proof -
    have "vars s ! q = Some m \<Longrightarrow> m < length (ledgers s)" for m
      using wf_var_ref[OF wf that] .
    then show ?thesis using that
      by (auto simp: same_ledger_def declare_ledger_def ledger_at_def total_at_def nth_append
          split: option.splits)
  qed
qed (simp_all add: declare_ledger_def GetAmount_def)

section \<open>The effect of add\<close>

lemma add_Some:
  "add (Some p) name class amount s =
     (case ensure_ledger p s of (m, s1) \<Rightarrow>
        case ensure_total m name s1 of (t, s2) \<Rightarrow>
          set_total_entry t class (total_index s2 (Some t) class + amount) s2)"
  by (simp add: add_def ensure_ledger_def ensure_total_def Let_def split: option.splits prod.splits)

lemma ensure_ledger_props:
  assumes wf: "wf_store s" and p: "p < length (vars s)" and e: "ensure_ledger p s = (m, s1)"
  shows "wf_store s1"
    and "vars s1 ! p = Some m"
    and "length (vars s1) = length (vars s)"
    and "\<And>q. q < length (vars s) \<Longrightarrow> q \<noteq> p \<Longrightarrow> same_ledger q s s1"
    and "\<And>n c. GetAmount (Some p) n c s1 = GetAmount (Some p) n c s"
proof -
  show "wf_store s1" "vars s1 ! p = Some m" "length (vars s1) = length (vars s)"
    using e wf p wf_new_ledger[OF wf p]
    by (auto simp: ensure_ledger_def make_ledger_def set_var_def split: option.splits)
  show "same_ledger q s s1" if "q < length (vars s)" "q \<noteq> p" for q
    using e same_ledger_new_ledger[OF wf that] same_ledger_refl[of q s]
    by (auto simp: ensure_ledger_def make_ledger_def set_var_def split: option.splits)
  show "GetAmount (Some p) n c s1 = GetAmount (Some p) n c s" for n c
    using e p
    by (auto simp: ensure_ledger_def make_ledger_def set_var_def GetAmount_def split: option.splits)
qed

lemma ensure_total_props:
  assumes wf: "wf_store s" and p: "p < length (vars s)" and m: "vars s ! p = Some m"
    and e: "ensure_total m name s = (t, s2)"
  shows "wf_store s2"
    and "vars s2 = vars s"
    and "(name, Some t) \<in> set (ledgers s2 ! m)"
    and "\<And>q. q < length (vars s) \<Longrightarrow> q \<noteq> p \<Longrightarrow> same_ledger q s s2"
    and "\<And>n c. GetAmount (Some p) n c s2 = GetAmount (Some p) n c s"
proof -
  have ml: "m < length (ledgers s)" using wf_var_ref[OF wf p m] .
  have dm: "distinct (map fst (ledgers s ! m))" using wf_ledger_distinct[OF wf ml] .
  have other: "vars s ! q \<noteq> Some m" if "q < length (vars s)" "q \<noteq> p" for q
    using wf_var_inj[OF wf p that(1) m] that(2) by auto
  have "wf_store s2 \<and> vars s2 = vars s \<and> (name, Some t) \<in> set (ledgers s2 ! m)"
  proof (cases "ledger_index s (Some m) name")
    case None
    then have s2: "s2 = s\<lparr>totals := totals s @ [[]],
            ledgers := (ledgers s)[m := AList.update name (Some (length (totals s))) (ledgers s ! m)]\<rparr>"
      and t: "t = length (totals s)"
      using e by (auto simp: ensure_total_def make_total_def set_ledger_entry_def)
    have "wf_store s2" unfolding s2 using wf_new_total[OF wf ml, of "[]" name] by simp
    moreover have "vars s2 = vars s" unfolding s2 by simp
    moreover have "(name, Some t) \<in> set (ledgers s2 ! m)"
      unfolding s2 t using ml by (simp add: in_set_update[OF dm])
    ultimately show ?thesis by simp
  next
    case (Some t')
    then have s2: "s2 = s" "t = t'" using e by (auto simp: ensure_total_def)
    from Some have "map_of (ledgers s ! m) name = Some (Some t')"
      by (auto simp: ledger_index_def ledger_at_def split: option.splits)
    then have "(name, Some t) \<in> set (ledgers s2 ! m)" using s2 by (auto dest: map_of_SomeD)
    then show ?thesis using wf s2 by simp
  qed
  then show "wf_store s2" "vars s2 = vars s" "(name, Some t) \<in> set (ledgers s2 ! m)"
    by simp_all
  show "same_ledger q s s2" if "q < length (vars s)" "q \<noteq> p" for q
    using e same_ledger_new_total[OF wf that(1) other[OF that]] same_ledger_refl[of q s]
    by (auto simp: ensure_total_def make_total_def set_ledger_entry_def split: option.splits)
  show "GetAmount (Some p) n c s2 = GetAmount (Some p) n c s" for n c
  proof (cases "ledger_index s (Some m) name")
    case None
    then have s2: "s2 = s\<lparr>totals := totals s @ [[]],
            ledgers := (ledgers s)[m := AList.update name (Some (length (totals s))) (ledgers s ! m)]\<rparr>"
      using e by (auto simp: ensure_total_def make_total_def set_ledger_entry_def)
    have old: "t' < length (totals s)" if "map_of (ledgers s ! m) n = Some (Some t')" for t'
      using wf_total_ref[OF wf ml map_of_SomeD[OF that]] .
    from None have none: "map_of (ledgers s ! m) name = None \<or> map_of (ledgers s ! m) name = Some None"
      by (auto simp: ledger_index_def ledger_at_def split: option.splits)
    show ?thesis
    proof (cases "n = name")
      case True
      with none show ?thesis unfolding s2 using m ml
        by (auto simp: GetAmount_def update_conv' total_at_def)
    next
      case False
      then show ?thesis unfolding s2 using m ml old
        by (auto simp: GetAmount_def update_conv' total_at_def nth_append split: option.splits)
    qed
  next
    case (Some t')
    then show ?thesis using e by (auto simp: ensure_total_def)
  qed
qed

lemma set_total_entry_props:
  assumes wf: "wf_store s" and p: "p < length (vars s)" and m: "vars s ! p = Some m"
    and t: "(name, Some t) \<in> set (ledgers s ! m)"
  shows "\<And>q. q < length (vars s) \<Longrightarrow> q \<noteq> p \<Longrightarrow> same_ledger q s (set_total_entry t class v s)"
    and "\<And>n c. GetAmount (Some p) n c (set_total_entry t class v s) =
          (if n = name \<and> c = class then (True, v) else GetAmount (Some p) n c s)"
    and "total_index s (Some t) class = snd (GetAmount (Some p) name class s)"
proof -
  have ml: "m < length (ledgers s)" using wf_var_ref[OF wf p m] .
  have dm: "distinct (map fst (ledgers s ! m))" using wf_ledger_distinct[OF wf ml] .
  have tl: "t < length (totals s)" using wf_total_ref[OF wf ml t] .
  have mt: "map_of (ledgers s ! m) name = Some (Some t)" using t dm by simp
  have other: "vars s ! q \<noteq> Some m" if "q < length (vars s)" "q \<noteq> p" for q
    using wf_var_inj[OF wf p that(1) m] that(2) by auto
  show "same_ledger q s (set_total_entry t class v s)" if "q < length (vars s)" "q \<noteq> p" for q
    using same_ledger_set_total_entry[OF wf that(1) other[OF that] ml t] .
  show "total_index s (Some t) class = snd (GetAmount (Some p) name class s)"
    using m mt by (simp add: GetAmount_def total_index_def split: option.splits)
  show "GetAmount (Some p) n c (set_total_entry t class v s) =
          (if n = name \<and> c = class then (True, v) else GetAmount (Some p) n c s)" for n c
  proof (cases "n = name")
    case True
    then show ?thesis using m mt tl
      by (simp add: GetAmount_def set_total_entry_def total_at_def update_conv')
  next
    case False
    have "t' \<noteq> t" if "map_of (ledgers s ! m) n = Some (Some t')" for t'
    proof
      assume "t' = t"
      with that have "(n, Some t) \<in> set (ledgers s ! m)" by (auto dest: map_of_SomeD)
      from wf_total_inj[OF wf ml ml t this] False show False by simp
    qed
    then show ?thesis using False m
      by (auto simp: GetAmount_def set_total_entry_def total_at_def split: option.splits)
  qed
qed

lemma add_props:
  assumes wf: "wf_store s" and p: "p < length (vars s)"
  shows "wf_store (add (Some p) name cls amount s)"
    and "length (vars (add (Some p) name cls amount s)) = length (vars s)"
    and "\<And>q. q < length (vars s) \<Longrightarrow> q \<noteq> p \<Longrightarrow> same_ledger q s (add (Some p) name cls amount s)"
    and "\<And>n c. GetAmount (Some p) n c (add (Some p) name cls amount s) =
          (if n = name \<and> c = cls
           then (True, snd (GetAmount (Some p) name cls s) + amount)
           else GetAmount (Some p) n c s)"
proof -
  obtain m s1 where e1: "ensure_ledger p s = (m, s1)" by (cases "ensure_ledger p s")
  obtain t s2 where e2: "ensure_total m name s1 = (t, s2)" by (cases "ensure_total m name s1")
  note L = ensure_ledger_props[OF wf p e1]
  have p1: "p < length (vars s1)" using L(3) p by simp
  note T = ensure_total_props[OF L(1) p1 L(2) e2]
  have p2: "p < length (vars s2)" and m2: "vars s2 ! p = Some m" using T(2) p1 L(2) by simp_all
  note S = set_total_entry_props[OF T(1) p2 m2 T(3)]
  let ?v = "total_index s2 (Some t) cls + amount"
  have eq: "add (Some p) name cls amount s = set_total_entry t cls ?v s2"
    by (simp add: add_Some e1 e2)
  show "wf_store (add (Some p) name cls amount s)"
    unfolding eq using wf_set_total_entry[OF T(1)] .
  show "length (vars (add (Some p) name cls amount s)) = length (vars s)"
    unfolding eq using T(2) L(3) by (simp add: set_total_entry_def)
  show "same_ledger q s (add (Some p) name cls amount s)" if "q < length (vars s)" "q \<noteq> p" for q
  proof -
    have "same_ledger q s s1" using L(4)[OF that] .
    moreover have "same_ledger q s1 s2" using T(4)[of q] that L(3) by simp
    moreover have "same_ledger q s2 (set_total_entry t cls ?v s2)"
      using S(1)[of q] that L(3) T(2) by simp
    ultimately show ?thesis unfolding eq by (blast intro: same_ledger_trans)
  qed
  show "GetAmount (Some p) n c (add (Some p) name cls amount s) =
          (if n = name \<and> c = cls
           then (True, snd (GetAmount (Some p) name cls s) + amount)
           else GetAmount (Some p) n c s)" for n c
    unfolding eq S(2) S(3) T(5) L(5) by simp
qed

lemma add_amount:
  assumes "wf_store s" "p < length (vars s)"
  shows "snd (GetAmount (Some p) n c (add (Some p) name cls amount s)) =
     snd (GetAmount (Some p) n c s) + (if n = name \<and> c = cls then amount else 0)"
  unfolding add_props(4)[OF assms] by simp

lemma GetAmount_not_found:
  "\<not> fst (GetAmount r name class s) \<Longrightarrow> GetAmount r name class s = (False, 0)"
  by (auto simp: GetAmount_def split: option.splits)

subsection \<open>Composing operations on one ledger\<close>

lemma framesD:
  assumes "frames p f" "wf_store s" "p < length (vars s)"
  shows "wf_store (f s)" and "length (vars (f s)) = length (vars s)"
    and "\<And>q. q < length (vars s) \<Longrightarrow> q \<noteq> p \<Longrightarrow> same_ledger q s (f s)"
    and "\<And>q n c. q < length (vars s) \<Longrightarrow> q \<noteq> p \<Longrightarrow>
           GetAmount (Some q) n c (f s) = GetAmount (Some q) n c s"
  using assms same_ledger_GetAmount unfolding frames_def by blast+

lemma frames_id: "frames p (\<lambda>s. s)"
  by (simp add: frames_def same_ledger_refl)

lemma frames_comp:
  assumes "frames p f" "frames p g"
  shows "frames p (\<lambda>s. g (f s))"
  unfolding frames_def
proof (intro allI impI conjI)
  fix s assume a: "wf_store s \<and> p < length (vars s)"
  note F = framesD(1-3)[OF assms(1) conjunct1[OF a] conjunct2[OF a]]
  have p': "p < length (vars (f s))" using F(2) a by simp
  note G = framesD(1-3)[OF assms(2) F(1) p']
  show "wf_store (g (f s))" by (rule G(1))
  show "length (vars (g (f s))) = length (vars s)" using G(2) F(2) by simp
  fix q assume q: "q < length (vars s)" "q \<noteq> p"
  then have "same_ledger q s (f s)" by (rule F(3))
  moreover have "same_ledger q (f s) (g (f s))" using G(3)[of q] q F(2) by simp
  ultimately show "same_ledger q s (g (f s))" by (rule same_ledger_trans)
qed

lemma frames_if:
  "frames p f \<Longrightarrow> frames p g \<Longrightarrow> frames p (\<lambda>s. if c s then f s else g s)"
  by (simp add: frames_def)

lemma frames_dep: "(\<And>x. frames p (F x)) \<Longrightarrow> frames p (\<lambda>s. F (h s) s)"
  by (simp add: frames_def)

lemma frames_add: "frames p (add (Some p) name class amount)"
  unfolding frames_def using add_props(1-3) by blast

lemma frames_add_requests: "frames p (add_requests (Some p) qrl)"
proof (induction qrl)
  case Nil
  show ?case using frames_id by (simp add: fun_eq_iff[symmetric] cong: )
next
  case (Cons qr qrl)
  show ?case using frames_comp[OF frames_add Cons] by simp
qed

lemma frames_set_max_requests: "frames p (set_max_requests p qrl)"
proof (induction qrl)
  case Nil
  show ?case using frames_id by simp
next
  case (Cons qr qrl)
  show ?case
    using frames_comp[OF frames_if[OF frames_add frames_id] Cons] by simp
qed

lemma keepsD:
  assumes "keeps p f"
  shows "frames p f"
    and "\<And>s n c. wf_store s \<Longrightarrow> p < length (vars s) \<Longrightarrow> fst (GetAmount (Some p) n c s) \<Longrightarrow>
           fst (GetAmount (Some p) n c (f s))"
  using assms unfolding keeps_def by blast+

lemma keeps_id: "keeps p (\<lambda>s. s)"
  by (simp add: keeps_def frames_id)

lemma keeps_comp:
  assumes "keeps p f" "keeps p g"
  shows "keeps p (\<lambda>s. g (f s))"
  unfolding keeps_def
proof (intro conjI allI impI)
  show "frames p (\<lambda>s. g (f s))" using frames_comp[OF keepsD(1)[OF assms(1)] keepsD(1)[OF assms(2)]] .
next
  fix s n c assume a: "wf_store s \<and> p < length (vars s)" and f: "fst (GetAmount (Some p) n c s)"
  note F = framesD(1,2)[OF keepsD(1)[OF assms(1)] conjunct1[OF a] conjunct2[OF a]]
  have p': "p < length (vars (f s))" using F(2) a by simp
  have "fst (GetAmount (Some p) n c (f s))"
    using keepsD(2)[OF assms(1) conjunct1[OF a] conjunct2[OF a] f] .
  then show "fst (GetAmount (Some p) n c (g (f s)))"
    using keepsD(2)[OF assms(2) F(1) p'] by blast
qed

lemma keeps_if: "keeps p f \<Longrightarrow> keeps p g \<Longrightarrow> keeps p (\<lambda>s. if c s then f s else g s)"
  by (simp add: keeps_def frames_if)

lemma keeps_dep: "(\<And>x. keeps p (F x)) \<Longrightarrow> keeps p (\<lambda>s. F (h s) s)"
  by (simp add: keeps_def frames_def)

lemma keeps_add: "keeps p (add (Some p) name cls amount)"
  unfolding keeps_def using frames_add add_props(4) by simp

lemma keeps_add_requests: "keeps p (add_requests (Some p) qrl)"
proof (induction qrl)
  case Nil
  show ?case using keeps_id by simp
next
  case (Cons qr qrl)
  show ?case using keeps_comp[OF keeps_add Cons] by simp
qed

lemma keeps_set_max_requests: "keeps p (set_max_requests p qrl)"
proof (induction qrl)
  case Nil
  show ?case using keeps_id by simp
next
  case (Cons qr qrl)
  show ?case using keeps_comp[OF keeps_if[OF keeps_add keeps_id] Cons] by simp
qed

lemma keeps_Sum_classes: "keeps p (Sum_classes (Some p) adding resName cs)"
proof (induction cs)
  case Nil
  show ?case using keeps_id by simp
next
  case (Cons x cs)
  obtain clsName clsAmount where x: "x = (clsName, clsAmount)" by (cases x)
  show ?case unfolding x using keeps_comp[OF keeps_if[OF keeps_add keeps_add] Cons] by simp
qed

lemma keeps_Sum_resources: "keeps p (Sum_resources (Some p) adding rs)"
proof (induction rs)
  case Nil
  show ?case using keeps_id by simp
next
  case (Cons x rs)
  obtain resName resTotal where x: "x = (resName, resTotal)" by (cases x)
  have "keeps p (\<lambda>s. Sum_classes (Some p) adding resName (total_at s resTotal) s)"
    by (rule keeps_dep) (rule keeps_Sum_classes)
  from keeps_comp[OF this Cons] show ?case unfolding x by simp
qed

lemma keeps_Sum: "keeps p (Sum (Some p) r2 adding)"
proof (cases r2)
  case None
  then have "Sum (Some p) r2 adding = (\<lambda>s. s)" by (simp add: Sum_def fun_eq_iff)
  then show ?thesis using keeps_id by simp
next
  case (Some p2)
  have "keeps p (\<lambda>s. Sum_resources (Some p) adding (ledger_at s (vars s ! p2)) s)"
    by (rule keeps_dep) (rule keeps_Sum_resources)
  moreover have "Sum (Some p) r2 adding =
      (\<lambda>s. Sum_resources (Some p) adding (ledger_at s (vars s ! p2)) s)"
    using Some by (simp add: Sum_def fun_eq_iff)
  ultimately show ?thesis by simp
qed

lemma frames_Sum_classes: "frames p (Sum_classes (Some p) adding resName cs)"
  using keepsD(1)[OF keeps_Sum_classes] .

lemma frames_Sum_resources: "frames p (Sum_resources (Some p) adding rs)"
  using keepsD(1)[OF keeps_Sum_resources] .

lemma frames_Sum: "frames p (Sum (Some p) r2 adding)"
  using keepsD(1)[OF keeps_Sum] .

section \<open>Request lists\<close>

lemma add_requests_GetAmount:
  assumes "wf_store s" "p < length (vars s)"
  shows "GetAmount (Some p) n c (add_requests (Some p) qrl s) =
     (if count_list (pairs qrl) (n, c) = 0 then GetAmount (Some p) n c s
      else (True, snd (GetAmount (Some p) n c s) + of_nat (count_list (pairs qrl) (n, c))))"
  using assms
proof (induction qrl arbitrary: s)
  case Nil
  then show ?case by (simp add: pairs_def)
next
  case (Cons qr qrl)
  let ?s1 = "add (Some p) (Name qr) (Class qr) 1 s"
  note A = add_props[OF Cons.prems, where name = "Name qr" and cls = "Class qr" and amount = 1]
  have p1: "p < length (vars ?s1)" using A(2) Cons.prems by simp
  have cnt: "count_list (pairs (qr # qrl)) (n, c) =
      (if n = Name qr \<and> c = Class qr then Suc (count_list (pairs qrl) (n, c))
       else count_list (pairs qrl) (n, c))"
    by (auto simp: pairs_def)
  show ?case
    unfolding add_requests.simps Cons.IH[OF A(1) p1] A(4) cnt
    by (simp add: algebra_simps)
qed

lemma add_requests_append:
  "add_requests r (xs @ ys) s = add_requests r ys (add_requests r xs s)"
  by (induction xs arbitrary: s) simp_all

lemma add_containers_eq:
  "add_containers (Some p) cs s = add_requests (Some p) (container_requests cs) s"
  by (induction cs arbitrary: s)
     (simp_all add: container_requests_def AddContainerQOSResources_def add_requests_append)

lemma set_max_cond:
  "(ledger_index s (vars s ! p) name = None \<or>
    total_index s (ledger_index s (vars s ! p) name) class = 0) \<longleftrightarrow>
   snd (GetAmount (Some p) name class s) = 0"
  by (auto simp: GetAmount_def ledger_index_def ledger_at_def total_index_def total_at_def
      split: option.splits)

lemma set_max_requests_GetAmount:
  assumes "wf_store s" "p < length (vars s)"
  shows "GetAmount (Some p) n c (set_max_requests p qrl s) =
     (if (n, c) \<in> set (pairs qrl) \<and> snd (GetAmount (Some p) n c s) = 0 then (True, 1)
      else GetAmount (Some p) n c s)"
  using assms
proof (induction qrl arbitrary: s)
  case Nil
  then show ?case by (simp add: pairs_def)
next
  case (Cons qr qrl)
  let ?s1 = "if snd (GetAmount (Some p) (Name qr) (Class qr) s) = 0
             then add (Some p) (Name qr) (Class qr) 1 s else s"
  note A = add_props[OF Cons.prems, where name = "Name qr" and cls = "Class qr" and amount = 1]
  have wf1: "wf_store ?s1" and p1: "p < length (vars ?s1)"
    using A(1,2) Cons.prems by simp_all
  have step: "set_max_requests p (qr # qrl) s = set_max_requests p qrl ?s1"
    by (simp add: set_max_cond)
  have g1: "GetAmount (Some p) n c ?s1 =
      (if n = Name qr \<and> c = Class qr \<and> snd (GetAmount (Some p) n c s) = 0 then (True, 1)
       else GetAmount (Some p) n c s)"
    using A(4) by auto
  show ?case
    unfolding step Cons.IH[OF wf1 p1] g1
    by (auto simp: pairs_def)
qed

lemma set_max_requests_append:
  "set_max_requests p (xs @ ys) s = set_max_requests p ys (set_max_requests p xs s)"
  by (induction xs arbitrary: s) simp_all

lemma set_max_containers_eq:
  "set_max_containers (Some p) cs s = set_max_requests p (container_requests cs) s"
  by (induction cs arbitrary: s)
     (simp_all add: container_requests_def SetMaxContainerQOSResources_def set_max_requests_append)

section \<open>The aggregation entry point\<close>

lemma int64_of_nat_eq_0:
  assumes "n < 2 ^ 63"
  shows "(of_nat n :: int64) = 0 \<longleftrightarrow> n = 0"
proof -
  have "n < 2 ^ 64" by (rule order_less_trans[OF assms]) simp
  then have "n mod 2 ^ 64 = n" by simp
  then show ?thesis
    by (auto simp: word_of_nat_eq_0_iff dvd_eq_mod_eq_0)
qed

lemma int64_sint_of_nat:
  assumes "n < 2 ^ 63"
  shows "sint (of_nat n :: int64) = int n"
proof -
  have "sint (word_of_int (int n) :: int64) = signed_take_bit (LENGTH(64) - 1) (int n)"
    by (rule sint_sbintrunc')
  also have "\<dots> = int n"
    using assms by (simp add: signed_take_bit_int_eq_self)
  finally show ?thesis by simp
qed

lemma PodQOSResourceRequests_Some:
  "PodQOSResourceRequests (Some pod) s =
     Inr (length (vars s), Suc (length (vars s)),
          set_max_requests (Suc (length (vars s))) (container_requests (InitContainers (Spec pod)))
            (add_requests (Some (Suc (length (vars s)))) (container_requests (Containers (Spec pod)))
               (add_requests (Some (length (vars s))) (PodQOSResources (Spec pod))
                  (declare_ledger (declare_ledger s)))))"
  by (simp add: PodQOSResourceRequests_def make_ledger_def new_var_def declare_ledger_def
      AddPodQOSResources_def add_containers_eq set_max_containers_eq Let_def)

lemma PodQOSResourceRequests_props:
  assumes wf: "wf_store s"
    and res: "PodQOSResourceRequests (Some pod) s = Inr (podReqs, containerReqs, s')"
  shows "wf_store s'"
    and "podReqs = length (vars s)" and "containerReqs = Suc (length (vars s))"
    and "length (vars s') = Suc (Suc (length (vars s)))"
    and "\<And>q. q < length (vars s) \<Longrightarrow> same_ledger q s s'"
    and "\<And>n c. GetAmount (Some podReqs) n c s' =
           (0 < count_list (pairs (PodQOSResources (Spec pod))) (n, c),
            of_nat (count_list (pairs (PodQOSResources (Spec pod))) (n, c)))"
    and "\<And>n c. GetAmount (Some containerReqs) n c s' =
           (if (of_nat (count_list (pairs (container_requests (Containers (Spec pod)))) (n, c)) :: int64) \<noteq> 0
            then (True, of_nat (count_list (pairs (container_requests (Containers (Spec pod)))) (n, c)))
            else if (n, c) \<in> set (pairs (container_requests (InitContainers (Spec pod))))
            then (True, 1)
            else (0 < count_list (pairs (container_requests (Containers (Spec pod)))) (n, c), 0))"
proof -
  let ?P = "length (vars s)" and ?C = "Suc (length (vars s))"
  let ?s2 = "declare_ledger s"
  let ?s4 = "declare_ledger ?s2"
  let ?s5 = "add_requests (Some ?P) (PodQOSResources (Spec pod)) ?s4"
  let ?s6 = "add_requests (Some ?C) (container_requests (Containers (Spec pod))) ?s5"
  let ?s7 = "set_max_requests ?C (container_requests (InitContainers (Spec pod))) ?s6"
  from res have P: "podReqs = ?P" and C: "containerReqs = ?C" and s': "s' = ?s7"
    unfolding PodQOSResourceRequests_Some by auto
  show "podReqs = ?P" "containerReqs = ?C" by (rule P, rule C)
  have wf2: "wf_store ?s2" using wf_declare_ledger[OF wf] .
  note D2 = declare_ledger_props[OF wf]
  have wf4: "wf_store ?s4" using wf_declare_ledger[OF wf2] .
  note D4 = declare_ledger_props[OF wf2]
  have l4: "length (vars ?s4) = Suc (Suc (length (vars s)))" using D4(1) D2(1) by simp
  have P4: "?P < length (vars ?s4)" and C4: "?C < length (vars ?s4)" using l4 by simp_all
  note F5 = framesD[OF frames_add_requests[of ?P "PodQOSResources (Spec pod)"] wf4 P4]
  have P5: "?P < length (vars ?s5)" and C5: "?C < length (vars ?s5)" using F5(2) l4 by simp_all
  note F6 = framesD[OF frames_add_requests[of ?C "container_requests (Containers (Spec pod))"] F5(1) C5]
  have P6: "?P < length (vars ?s6)" and C6: "?C < length (vars ?s6)" using F6(2) F5(2) l4 by simp_all
  note F7 = framesD[OF frames_set_max_requests[of ?C "container_requests (InitContainers (Spec pod))"] F6(1) C6]
  show "wf_store s'" unfolding s' by (rule F7(1))
  show "length (vars s') = Suc (Suc (length (vars s)))"
    unfolding s' using F7(2) F6(2) F5(2) l4 by simp
  show "same_ledger q s s'" if "q < length (vars s)" for q
  proof -
    have "same_ledger q s ?s2" using D2(5)[OF that] .
    moreover have "same_ledger q ?s2 ?s4" using D4(5)[of q] that D2(1) by simp
    moreover have "same_ledger q ?s4 ?s5" using F5(3)[of q] that l4 by simp
    moreover have "same_ledger q ?s5 ?s6" using F6(3)[of q] that l4 F5(2) by simp
    moreover have "same_ledger q ?s6 ?s7" using F7(3)[of q] that l4 F5(2) F6(2) by simp
    ultimately show ?thesis unfolding s' by (blast intro: same_ledger_trans)
  qed
  have gP4: "GetAmount (Some ?P) n c ?s4 = (False, 0)" for n c
    using same_ledger_GetAmount[OF D4(5)[of ?P]] D2(1,4) by simp
  have gC4: "GetAmount (Some ?C) n c ?s4 = (False, 0)" for n c
    using D4(4) D2(1) by simp
  show "GetAmount (Some podReqs) n c s' =
           (0 < count_list (pairs (PodQOSResources (Spec pod))) (n, c),
            of_nat (count_list (pairs (PodQOSResources (Spec pod))) (n, c)))" for n c
  proof -
    have "GetAmount (Some ?P) n c ?s7 = GetAmount (Some ?P) n c ?s6"
      using F7(4)[of ?P] P6 by simp
    also have "\<dots> = GetAmount (Some ?P) n c ?s5" using F6(4)[of ?P] P5 by simp
    also have "\<dots> = (0 < count_list (pairs (PodQOSResources (Spec pod))) (n, c),
            of_nat (count_list (pairs (PodQOSResources (Spec pod))) (n, c)))"
      unfolding add_requests_GetAmount[OF wf4 P4] gP4 by simp
    finally show ?thesis unfolding P s' .
  qed
  show "GetAmount (Some containerReqs) n c s' =
           (if (of_nat (count_list (pairs (container_requests (Containers (Spec pod)))) (n, c)) :: int64) \<noteq> 0
            then (True, of_nat (count_list (pairs (container_requests (Containers (Spec pod)))) (n, c)))
            else if (n, c) \<in> set (pairs (container_requests (InitContainers (Spec pod))))
            then (True, 1)
            else (0 < count_list (pairs (container_requests (Containers (Spec pod)))) (n, c), 0))" for n c
  proof -
    have g5: "GetAmount (Some ?C) n c ?s5 = (False, 0)"
      using F5(4)[of ?C] C4 gC4 by simp
    have g6: "GetAmount (Some ?C) n c ?s6 =
        (0 < count_list (pairs (container_requests (Containers (Spec pod)))) (n, c),
         of_nat (count_list (pairs (container_requests (Containers (Spec pod)))) (n, c)))"
      unfolding add_requests_GetAmount[OF F5(1) C5] g5 by simp
    show ?thesis
      unfolding C s' set_max_requests_GetAmount[OF F6(1) C6] g6
      by (cases "count_list (pairs (container_requests (Containers (Spec pod)))) (n, c) = 0") auto
  qed
qed

section \<open>Sum\<close>

lemma amount_in_perm:
  assumes "mset es = mset es'"
  shows "amount_in es n c = amount_in es' n c"
proof -
  let ?f = "\<lambda>(n', c', a :: int64). if n' = n \<and> c' = c then a else 0"
  have "sum_list (map ?f es) = sum_mset (image_mset ?f (mset es))"
    by (simp add: sum_mset_sum_list[symmetric])
  also have "\<dots> = sum_mset (image_mset ?f (mset es'))" using assms by simp
  also have "\<dots> = sum_list (map ?f es')" by (simp add: sum_mset_sum_list[symmetric])
  finally show ?thesis by (simp add: amount_in_def)
qed

lemma Sum_classes_amount:
  assumes "wf_store s" "p < length (vars s)"
  shows "snd (GetAmount (Some p) n c (Sum_classes (Some p) adding resName cs s)) =
     snd (GetAmount (Some p) n c s) +
     (if adding then 1 else - 1) * amount_in (map (\<lambda>(c, a). (resName, c, a)) cs) n c"
  using assms
proof (induction cs arbitrary: s)
  case Nil
  then show ?case by (simp add: amount_in_def)
next
  case (Cons x cs)
  obtain clsName clsAmount where x: "x = (clsName, clsAmount)" by (cases x)
  let ?d = "if adding then clsAmount else - 1 * clsAmount"
  let ?s1 = "add (Some p) resName clsName ?d s"
  note A = add_props(1,2)[OF Cons.prems, where name = resName and cls = clsName and amount = ?d]
  have p1: "p < length (vars ?s1)" using A(2) Cons.prems by simp
  have step: "Sum_classes (Some p) adding resName (x # cs) s =
      Sum_classes (Some p) adding resName cs ?s1"
    unfolding x by simp
  have "snd (GetAmount (Some p) n c (Sum_classes (Some p) adding resName (x # cs) s)) =
      snd (GetAmount (Some p) n c ?s1) +
      (if adding then 1 else - 1) * amount_in (map (\<lambda>(c, a). (resName, c, a)) cs) n c"
    unfolding step by (rule Cons.IH[OF A(1) p1])
  also have "snd (GetAmount (Some p) n c ?s1) =
      snd (GetAmount (Some p) n c s) + (if n = resName \<and> c = clsName then ?d else 0)"
    by (rule add_amount[OF Cons.prems])
  finally show ?case
    by (simp add: x amount_in_def algebra_simps)
qed

lemma Sum_entries_same:
  assumes "same_ledger q s s'" "set rs \<subseteq> set (ledger_at s (vars s ! q))"
  shows "Sum_entries s' rs = Sum_entries s rs"
proof -
  have "total_at s' v = total_at s v" if "(n, v) \<in> set rs" for n v
    using assms that unfolding same_ledger_def by blast
  then show ?thesis
    unfolding Sum_entries_def by (auto intro!: arg_cong[where f = concat] map_cong)
qed

lemma Sum_resources_amount:
  assumes "wf_store s" "p < length (vars s)" "q < length (vars s)" "q \<noteq> p"
    and "set rs \<subseteq> set (ledger_at s (vars s ! q))"
  shows "snd (GetAmount (Some p) n c (Sum_resources (Some p) adding rs s)) =
     snd (GetAmount (Some p) n c s) +
     (if adding then 1 else - 1) * amount_in (Sum_entries s rs) n c"
  using assms
proof (induction rs arbitrary: s)
  case Nil
  then show ?case by (simp add: amount_in_def Sum_entries_def)
next
  case (Cons x rs)
  obtain resName resTotal where x: "x = (resName, resTotal)" by (cases x)
  let ?s1 = "Sum_classes (Some p) adding resName (total_at s resTotal) s"
  note F = framesD(1-3)[OF frames_Sum_classes[of p adding resName "total_at s resTotal"] Cons.prems(1,2)]
  have p1: "p < length (vars ?s1)" and q1: "q < length (vars ?s1)"
    using F(2) Cons.prems(2,3) by simp_all
  have same: "same_ledger q s ?s1" using F(3)[OF Cons.prems(3,4)] .
  have sub: "set rs \<subseteq> set (ledger_at s (vars s ! q))" using Cons.prems(5) by simp
  have sub1: "set rs \<subseteq> set (ledger_at ?s1 (vars ?s1 ! q))"
    using sub same unfolding same_ledger_def by simp
  have ent: "Sum_entries ?s1 rs = Sum_entries s rs" using Sum_entries_same[OF same sub] .
  have split: "amount_in (Sum_entries s (x # rs)) n c =
      amount_in (map (\<lambda>(c, a). (resName, c, a)) (total_at s resTotal)) n c +
      amount_in (Sum_entries s rs) n c"
    unfolding x by (simp add: Sum_entries_def amount_in_def)
  have step: "Sum_resources (Some p) adding (x # rs) s = Sum_resources (Some p) adding rs ?s1"
    unfolding x by simp
  have "snd (GetAmount (Some p) n c (Sum_resources (Some p) adding (x # rs) s)) =
      snd (GetAmount (Some p) n c ?s1) +
      (if adding then 1 else - 1) * amount_in (Sum_entries ?s1 rs) n c"
    unfolding step by (rule Cons.IH[OF F(1) p1 q1 Cons.prems(4) sub1])
  also have "snd (GetAmount (Some p) n c ?s1) =
      snd (GetAmount (Some p) n c s) +
      (if adding then 1 else - 1) *
        amount_in (map (\<lambda>(c, a). (resName, c, a)) (total_at s resTotal)) n c"
    by (rule Sum_classes_amount[OF Cons.prems(1,2)])
  finally show ?case
    unfolding ent split by (simp add: algebra_simps)
qed

lemma Sum_amount:
  assumes "wf_store s" "p < length (vars s)" "q < length (vars s)" "q \<noteq> p"
  shows "snd (GetAmount (Some p) n c (Sum (Some p) (Some q) adding s)) =
     snd (GetAmount (Some p) n c s) +
     (if adding then 1 else - 1) * amount_in (Sum_entries s (ledger_at s (vars s ! q))) n c"
  unfolding Sum_def using Sum_resources_amount[OF assms order_refl] by simp

section \<open>Sequences of operations\<close>

lemma apply_op_receiver:
  "apply_op (Op_add r name cls amount) = add r name cls amount"
  "apply_op (Op_AddPodQOSResources (Some p) qrl) = add_requests (Some p) qrl"
  "apply_op (Op_AddContainerQOSResources (Some p) qrl) = add_requests (Some p) qrl"
  "apply_op (Op_SetMaxContainerQOSResources (Some p) qrl) = set_max_requests p qrl"
  "apply_op (Op_Sum r r2 adding) = Sum r r2 adding"
  by (simp_all add: fun_eq_iff AddPodQOSResources_def AddContainerQOSResources_def
      SetMaxContainerQOSResources_def)

lemma keeps_apply_op: "receiver x = Some p \<Longrightarrow> keeps p (apply_op x)"
  using keeps_add keeps_add_requests keeps_set_max_requests keeps_Sum
  by (cases x) (simp_all add: apply_op_receiver)

lemma apply_op_nil: "receiver x = None \<Longrightarrow> apply_op x s = s"
  by (cases x)
     (simp_all add: add_def AddPodQOSResources_def AddContainerQOSResources_def
        SetMaxContainerQOSResources_def Sum_def)

lemma apply_op_found:
  assumes wf: "wf_store s" and q: "q < length (vars s)" and v: "valid_ptr s (receiver x)"
    and f: "fst (GetAmount (Some q) n c s)"
  shows "wf_store (apply_op x s) \<and> length (vars (apply_op x s)) = length (vars s) \<and>
         fst (GetAmount (Some q) n c (apply_op x s))"
proof (cases "receiver x")
  case None
  then show ?thesis using wf f by (simp add: apply_op_nil)
next
  case (Some p)
  then have p: "p < length (vars s)" using v by (simp add: valid_ptr_def)
  note K = keepsD[OF keeps_apply_op[OF Some]]
  note F = framesD[OF K(1) wf p]
  show ?thesis
  proof (cases "q = p")
    case True
    then show ?thesis using F(1,2) K(2)[OF wf p] f by simp
  next
    case False
    then show ?thesis using F(1,2) F(4)[OF q False] f by simp
  qed
qed

lemma frames_apply_ops:
  "\<forall>x \<in> set ops. receiver x = Some p \<Longrightarrow> frames p (apply_ops ops)"
proof (induction ops)
  case Nil
  have "apply_ops [] = (\<lambda>s. s)" by (simp add: fun_eq_iff)
  then show ?case using frames_id by simp
next
  case (Cons x ops)
  have "frames p (apply_op x)" using keepsD(1)[OF keeps_apply_op] Cons.prems by simp
  moreover have "frames p (apply_ops ops)" using Cons by simp
  moreover have "apply_ops (x # ops) = (\<lambda>s. apply_ops ops (apply_op x s))"
    by (simp add: fun_eq_iff)
  ultimately show ?case using frames_comp by simp
qed

section \<open>New counters: capacity information and Clone\<close>

lemma install_props:
  assumes wf: "wf_store s" and p: "p < length (vars s)" and m: "vars s ! p = Some m"
    and dl: "distinct (map fst l)"
  shows "wf_store (install m k l s)"
    and "vars (install m k l s) = vars s"
    and "\<And>q. q < length (vars s) \<Longrightarrow> q \<noteq> p \<Longrightarrow> same_ledger q s (install m k l s)"
    and "\<And>n c. GetAmount (Some p) n c (install m k l s) =
           (if n = k then lookup_amount l c else GetAmount (Some p) n c s)"
proof -
  have ml: "m < length (ledgers s)" using wf_var_ref[OF wf p m] .
  show "wf_store (install m k l s)" unfolding install_def using wf_new_total[OF wf ml dl] .
  show "vars (install m k l s) = vars s" by (simp add: install_def)
  show "same_ledger q s (install m k l s)" if "q < length (vars s)" "q \<noteq> p" for q
  proof -
    have "vars s ! q \<noteq> Some m" using wf_var_inj[OF wf p that(1) m] that(2) by auto
    from same_ledger_new_total[OF wf that(1) this] show ?thesis unfolding install_def .
  qed
  show "GetAmount (Some p) n c (install m k l s) =
           (if n = k then lookup_amount l c else GetAmount (Some p) n c s)" for n c
  proof (cases "n = k")
    case True
    then show ?thesis using m ml
      by (simp add: GetAmount_def install_def update_conv' total_at_def lookup_amount_def)
  next
    case False
    have old: "t' < length (totals s)" if "map_of (ledgers s ! m) n = Some (Some t')" for t'
      using wf_total_ref[OF wf ml map_of_SomeD[OF that]] .
    then show ?thesis using False m ml
      by (auto simp: GetAmount_def install_def update_conv' total_at_def nth_append
          split: option.splits)
  qed
qed

lemma map_of_fold_update:
  "map_of (fold (\<lambda>x. AList.update (f x) (g x)) xs l) =
   map_of l ++ map_of (rev (map (\<lambda>x. (f x, g x)) xs))"
proof (induction xs arbitrary: l)
  case Nil
  show ?case by simp
next
  case (Cons x xs)
  show ?case by (auto simp: Cons update_conv' fun_eq_iff map_add_def split: option.splits)
qed

lemma distinct_fold_update:
  "distinct (map fst l) \<Longrightarrow> distinct (map fst (fold (\<lambda>x. AList.update (f x) (g x)) xs l))"
  by (induction xs arbitrary: l) (simp_all add: distinct_update)

lemma map_of_rev_distinct:
  assumes "distinct (map fst xs)"
  shows "map_of (rev xs) = map_of xs"
proof -
  have "distinct (map fst (rev xs))" using assms by (simp add: rev_map[symmetric])
  from map_of_inject_set[OF this assms] show ?thesis by simp
qed

lemma FromInfo_classes_eq:
  "FromInfo_classes T cs s =
   s\<lparr>totals := (totals s)[T := fold (\<lambda>c. AList.update (ClassName c) (Capacity c)) cs (totals s ! T)]\<rparr>"
proof (induction cs arbitrary: s)
  case Nil
  show ?case by simp
next
  case (Cons c cs)
  show ?case
    by (cases "T < length (totals s)")
       (simp_all add: Cons set_total_entry_def list_update_beyond not_less)
qed

lemma FromInfo_resources_step:
  "FromInfo_resources m (qr # rest) s =
   FromInfo_resources m rest
     (install m (InfoName qr) (fold (\<lambda>c. AList.update (ClassName c) (Capacity c)) (Classes qr) []) s)"
  by (simp add: make_total_def FromInfo_classes_eq set_ledger_entry_def install_def)

lemma FromInfo_resources_aux:
  assumes "wf_store s" "p < length (vars s)" "vars s ! p = Some m"
  shows "wf_store (FromInfo_resources m infos s) \<and>
      vars (FromInfo_resources m infos s) = vars s \<and>
      (\<forall>q. q < length (vars s) \<longrightarrow> q \<noteq> p \<longrightarrow> same_ledger q s (FromInfo_resources m infos s)) \<and>
      (\<forall>n c. GetAmount (Some p) n c (FromInfo_resources m infos s) =
           (case map_of (rev (info_classes infos)) n of
              None \<Rightarrow> GetAmount (Some p) n c s
            | Some cs \<Rightarrow> lookup_amount (rev (class_capacities cs)) c))"
  using assms
proof (induction infos arbitrary: s)
  case Nil
  then show ?case by (simp add: same_ledger_refl info_classes_def)
next
  case (Cons qr infos)
  let ?l = "fold (\<lambda>c. AList.update (ClassName c) (Capacity c)) (Classes qr) []"
  let ?s1 = "install m (InfoName qr) ?l s"
  have dl: "distinct (map fst ?l)" by (rule distinct_fold_update) simp
  note I = install_props[OF Cons.prems dl, where k = "InfoName qr"]
  have p1: "p < length (vars ?s1)" and m1: "vars ?s1 ! p = Some m"
    using I(2) Cons.prems by simp_all
  note IH = Cons.IH[OF I(1) p1 m1]
  have la: "lookup_amount ?l c = lookup_amount (rev (class_capacities (Classes qr))) c" for c
    by (simp add: lookup_amount_def map_of_fold_update class_capacities_def)
  have "wf_store (FromInfo_resources m (qr # infos) s)"
    unfolding FromInfo_resources_step using IH by blast
  moreover have "vars (FromInfo_resources m (qr # infos) s) = vars s"
    unfolding FromInfo_resources_step using IH I(2) by simp
  moreover have "same_ledger q s (FromInfo_resources m (qr # infos) s)"
    if "q < length (vars s)" "q \<noteq> p" for q
  proof -
    have "same_ledger q ?s1 (FromInfo_resources m infos ?s1)" using IH that I(2) by simp
    from same_ledger_trans[OF I(3)[OF that] this] show ?thesis
      unfolding FromInfo_resources_step .
  qed
  moreover have "GetAmount (Some p) n c (FromInfo_resources m (qr # infos) s) =
         (case map_of (rev (info_classes (qr # infos))) n of
            None \<Rightarrow> GetAmount (Some p) n c s
          | Some cs \<Rightarrow> lookup_amount (rev (class_capacities cs)) c)" for n c
  proof -
    have "GetAmount (Some p) n c (FromInfo_resources m infos ?s1) =
         (case map_of (rev (info_classes infos)) n of
            None \<Rightarrow> GetAmount (Some p) n c ?s1
          | Some cs \<Rightarrow> lookup_amount (rev (class_capacities cs)) c)"
      using IH by blast
    then show ?thesis
      unfolding FromInfo_resources_step I(4) la
      by (auto simp: info_classes_def map_add_def split: option.splits)
  qed
  ultimately show ?case by blast
qed

lemma QOSResourcesTotalFromInfo_eq:
  "QOSResourcesTotalFromInfo infos s =
     (length (vars s), FromInfo_resources (length (ledgers s)) infos (declare_ledger s))"
  by (simp add: QOSResourcesTotalFromInfo_def make_ledger_def new_var_def declare_ledger_def)

lemma Clone_classes_eq:
  "Clone_classes T cs s =
   s\<lparr>totals := (totals s)[T := fold (\<lambda>x. AList.update (fst x) (snd x)) cs (totals s ! T)]\<rparr>"
proof (induction cs arbitrary: s)
  case Nil
  show ?case by simp
next
  case (Cons x cs)
  obtain c amount where x: "x = (c, amount)" by (cases x)
  show ?case
    unfolding x
    by (cases "T < length (totals s)")
       (simp_all add: Cons set_total_entry_def list_update_beyond not_less)
qed

lemma Clone_resources_step:
  assumes "\<And>t. v = Some t \<Longrightarrow> t < length (totals s)"
  shows "Clone_resources m ((k, v) # rest) s =
   Clone_resources m rest
     (install m k (fold (\<lambda>x. AList.update (fst x) (snd x)) (total_at s v) []) s)"
proof -
  have "total_at (s\<lparr>totals := totals s @ [[]]\<rparr>) v = total_at s v"
    using assms by (cases v) (simp_all add: total_at_def nth_append)
  then show ?thesis
    by (simp add: make_total_def Clone_classes_eq set_ledger_entry_def install_def)
qed

lemma Clone_resources_aux:
  assumes "wf_store s" "out < length (vars s)" "vars s ! out = Some m"
    and "src < length (vars s)" "src \<noteq> out"
    and "set rs \<subseteq> set (ledger_at s (vars s ! src))"
  shows "wf_store (Clone_resources m rs s) \<and>
      vars (Clone_resources m rs s) = vars s \<and>
      (\<forall>q. q < length (vars s) \<longrightarrow> q \<noteq> out \<longrightarrow> same_ledger q s (Clone_resources m rs s)) \<and>
      (\<forall>n c. GetAmount (Some out) n c (Clone_resources m rs s) =
           (case map_of (rev rs) n of
              None \<Rightarrow> GetAmount (Some out) n c s
            | Some v \<Rightarrow> lookup_amount (total_at s v) c))"
  using assms
proof (induction rs arbitrary: s)
  case Nil
  then show ?case by (simp add: same_ledger_refl)
next
  case (Cons x rs)
  obtain k v where x: "x = (k, v)" by (cases x)
  note wf = Cons.prems(1)
  have mem: "(k, v) \<in> set (ledger_at s (vars s ! src))" using Cons.prems(6) x by simp
  then obtain m0 where m0: "vars s ! src = Some m0"
    by (cases "vars s ! src") (simp_all add: ledger_at_def)
  have m0l: "m0 < length (ledgers s)" using wf_var_ref[OF wf Cons.prems(4) m0] .
  have vt: "t < length (totals s)" if "v = Some t" for t
    using wf_total_ref[OF wf m0l, of k t] mem m0 that by (simp add: ledger_at_def)
  have dv: "distinct (map fst (total_at s v))"
    using vt wf_total_distinct[OF wf] by (cases v) (simp_all add: total_at_def)
  let ?l = "fold (\<lambda>x. AList.update (fst x) (snd x)) (total_at s v) []"
  let ?s1 = "install m k ?l s"
  have dl: "distinct (map fst ?l)" by (rule distinct_fold_update) simp
  have la: "lookup_amount ?l c = lookup_amount (total_at s v) c" for c
    using map_of_rev_distinct[OF dv] by (simp add: lookup_amount_def map_of_fold_update)
  note I = install_props[OF Cons.prems(1-3) dl, where k = k]
  have o1: "out < length (vars ?s1)" and m1: "vars ?s1 ! out = Some m"
    and s1: "src < length (vars ?s1)"
    using I(2) Cons.prems(2-4) by simp_all
  have same: "same_ledger src s ?s1" using I(3)[OF Cons.prems(4,5)] .
  have sub: "set rs \<subseteq> set (ledger_at s (vars s ! src))" using Cons.prems(6) by simp
  have sub1: "set rs \<subseteq> set (ledger_at ?s1 (vars ?s1 ! src))"
    using sub same unfolding same_ledger_def by simp
  have tot: "total_at ?s1 v' = total_at s v'" if "(n, v') \<in> set rs" for n v'
    using same sub that unfolding same_ledger_def by blast
  note IH = Cons.IH[OF I(1) o1 m1 s1 Cons.prems(5) sub1]
  have step: "Clone_resources m (x # rs) s = Clone_resources m rs ?s1"
    unfolding x using Clone_resources_step[of v s m k rs] vt by simp
  have "wf_store (Clone_resources m (x # rs) s)" unfolding step using IH by blast
  moreover have "vars (Clone_resources m (x # rs) s) = vars s"
    unfolding step using IH I(2) by simp
  moreover have "same_ledger q s (Clone_resources m (x # rs) s)"
    if "q < length (vars s)" "q \<noteq> out" for q
  proof -
    have "same_ledger q ?s1 (Clone_resources m rs ?s1)" using IH that I(2) by simp
    from same_ledger_trans[OF I(3)[OF that] this] show ?thesis unfolding step .
  qed
  moreover have "GetAmount (Some out) n c (Clone_resources m (x # rs) s) =
         (case map_of (rev (x # rs)) n of
            None \<Rightarrow> GetAmount (Some out) n c s
          | Some v \<Rightarrow> lookup_amount (total_at s v) c)" for n c
  proof -
    have g: "GetAmount (Some out) n c (Clone_resources m rs ?s1) =
         (case map_of (rev rs) n of
            None \<Rightarrow> GetAmount (Some out) n c ?s1
          | Some v \<Rightarrow> lookup_amount (total_at ?s1 v) c)"
      using IH by blast
    have g': "GetAmount (Some out) n c (Clone_resources m (x # rs) s) =
         (case map_of (rev rs) n of
            None \<Rightarrow> (if n = k then lookup_amount (total_at s v) c else GetAmount (Some out) n c s)
          | Some v \<Rightarrow> lookup_amount (total_at ?s1 v) c)"
      unfolding step g I(4) la ..
    show ?thesis
    proof (cases "map_of (rev rs) n")
      case None
      then show ?thesis unfolding g' by (simp add: x map_add_def)
    next
      case (Some v')
      then have "(n, v') \<in> set rs" using map_of_SomeD by fastforce
      then have "total_at ?s1 v' = total_at s v'" by (rule tot)
      then show ?thesis unfolding g' using Some by (simp add: x map_add_def)
    qed
  qed
  ultimately show ?case by blast
qed

lemma Clone_Some:
  "Clone (Some p) s =
     (Some (length (vars s)),
      Clone_resources (length (ledgers s))
        (ledger_at (declare_ledger s) (vars (declare_ledger s) ! p)) (declare_ledger s))"
  by (simp add: Clone_def make_ledger_def new_var_def declare_ledger_def)

lemma Clone_props:
  assumes wf: "wf_store s" and p: "p < length (vars s)" and c: "Clone (Some p) s = (r', s')"
  shows "r' = Some (length (vars s))"
    and "wf_store s'"
    and "length (vars s') = Suc (length (vars s))"
    and "\<And>q. q < length (vars s) \<Longrightarrow> same_ledger q s s'"
    and "\<And>n c. GetAmount r' n c s' = GetAmount (Some p) n c s"
proof -
  let ?out = "length (vars s)"
  let ?s2 = "declare_ledger s"
  let ?rs = "ledger_at ?s2 (vars ?s2 ! p)"
  from c have r': "r' = Some ?out" and s': "s' = Clone_resources (length (ledgers s)) ?rs ?s2"
    unfolding Clone_Some by simp_all
  note D = declare_ledger_props[OF wf]
  have wf2: "wf_store ?s2" using wf_declare_ledger[OF wf] .
  have o2: "?out < length (vars ?s2)" and p2: "p < length (vars ?s2)" and ne: "p \<noteq> ?out"
    using D(1) p by simp_all
  have same2: "same_ledger p s ?s2" using D(5)[OF p] .
  then have rs: "?rs = ledger_at s (vars s ! p)" unfolding same_ledger_def by simp
  note A = Clone_resources_aux[OF wf2 o2 D(2) p2 ne order_refl]
  show "r' = Some ?out" by (rule r')
  show "wf_store s'" unfolding s' using A by blast
  show "length (vars s') = Suc ?out" unfolding s' using A D(1) by simp
  show "same_ledger q s s'" if "q < length (vars s)" for q
  proof -
    have "same_ledger q ?s2 s'" unfolding s' using A that D(1) by simp
    from same_ledger_trans[OF D(5)[OF that] this] show ?thesis .
  qed
  show "GetAmount r' n c s' = GetAmount (Some p) n c s" for n c
  proof -
    have g: "GetAmount (Some ?out) n c s' =
        (case map_of (rev ?rs) n of
           None \<Rightarrow> GetAmount (Some ?out) n c ?s2
         | Some v \<Rightarrow> lookup_amount (total_at ?s2 v) c)"
      unfolding s' using A by blast
    have d: "distinct (map fst (ledger_at s (vars s ! p)))"
      using wf_var_ref[OF wf p] wf_ledger_distinct[OF wf]
      by (cases "vars s ! p") (simp_all add: ledger_at_def)
    have tot: "total_at ?s2 v = total_at s v" if "map_of (ledger_at s (vars s ! p)) n = Some v" for v
      using same2 map_of_SomeD[OF that] unfolding same_ledger_def by blast
    have "GetAmount (Some p) n c s =
        (case map_of (ledger_at s (vars s ! p)) n of
           None \<Rightarrow> (False, 0)
         | Some v \<Rightarrow> lookup_amount (total_at s v) c)"
      by (simp add: GetAmount_def ledger_at_def lookup_amount_def split: option.splits)
    then show ?thesis
      unfolding r' g rs map_of_rev_distinct[OF d] D(4) using tot
      by (simp split: option.splits)
  qed
qed

section \<open>The claims\<close>

text \<open>
  Claim C1, as stated: in \<^verbatim>\<open>SetMaxContainerQOSResources\<close>, a requested pair without
  an entry gets amount 1, and an existing entry is left untouched whatever its value,
  0 included. The second half fails: the guard of the loop is
  \<^verbatim>\<open>(*r)[qr.Name][qr.Class] == 0\<close>, so an entry that holds 0 is raised to 1. Here the
  ledger holds (gpu, fast) with amount 0, as it does after a contribution of
  (gpu, fast) has been added and subtracted again, and the request list is
  [(gpu, fast)].
\<close>

theorem set_max_zero_entry_counterexample:
  "GetAmount (Some 0) ''gpu'' ''fast''
     \<lparr>totals = [[(''fast'', 0)]], ledgers = [[(''gpu'', Some 0)]], vars = [Some 0]\<rparr> = (True, 0) \<and>
   GetAmount (Some 0) ''gpu'' ''fast''
     (SetMaxContainerQOSResources (Some 0) [\<lparr>Name = ''gpu'', Class = ''fast''\<rparr>]
        \<lparr>totals = [[(''fast'', 0)]], ledgers = [[(''gpu'', Some 0)]], vars = [Some 0]\<rparr>) = (True, 1)"
  by code_simp

text \<open>
  Claim C1, amended: for a receiver that is not nil and a pair of the request list, a
  pair without an entry, or with an entry that holds 0, has amount 1 afterwards; an entry
  with any other amount is left untouched.
\<close>

theorem set_max_presence_floor:
  assumes "wf_store s" and "p < length (vars s)" and "(name, class) \<in> set (pairs qrl)"
  shows "(\<not> fst (GetAmount (Some p) name class s) \<longrightarrow>
            GetAmount (Some p) name class (SetMaxContainerQOSResources (Some p) qrl s) = (True, 1)) \<and>
         (GetAmount (Some p) name class s = (True, 0) \<longrightarrow>
            GetAmount (Some p) name class (SetMaxContainerQOSResources (Some p) qrl s) = (True, 1)) \<and>
         (fst (GetAmount (Some p) name class s) \<and> snd (GetAmount (Some p) name class s) \<noteq> 0 \<longrightarrow>
            GetAmount (Some p) name class (SetMaxContainerQOSResources (Some p) qrl s) =
            GetAmount (Some p) name class s)"
  using assms(3) GetAmount_not_found[of "Some p" name "class" s]
  by (auto simp: SetMaxContainerQOSResources_def set_max_requests_GetAmount[OF assms(1,2)])

theorem set_max_presence_floor_witness:
  "wf_store \<lparr>totals = [[(''fast'', 3)]], ledgers = [[(''gpu'', Some 0)]], vars = [Some 0]\<rparr> \<and>
   (0::nat) < length (vars \<lparr>totals = [[(''fast'', 3)]], ledgers = [[(''gpu'', Some 0)]], vars = [Some 0]\<rparr>) \<and>
   (''gpu'', ''fast'') \<in> set (pairs [\<lparr>Name = ''gpu'', Class = ''fast''\<rparr>, \<lparr>Name = ''gpu'', Class = ''slow''\<rparr>]) \<and>
   (''gpu'', ''slow'') \<in> set (pairs [\<lparr>Name = ''gpu'', Class = ''fast''\<rparr>, \<lparr>Name = ''gpu'', Class = ''slow''\<rparr>]) \<and>
   GetAmount (Some 0) ''gpu'' ''fast''
     (SetMaxContainerQOSResources (Some 0) [\<lparr>Name = ''gpu'', Class = ''fast''\<rparr>, \<lparr>Name = ''gpu'', Class = ''slow''\<rparr>]
        \<lparr>totals = [[(''fast'', 3)]], ledgers = [[(''gpu'', Some 0)]], vars = [Some 0]\<rparr>) = (True, 3) \<and>
   GetAmount (Some 0) ''gpu'' ''slow''
     (SetMaxContainerQOSResources (Some 0) [\<lparr>Name = ''gpu'', Class = ''fast''\<rparr>, \<lparr>Name = ''gpu'', Class = ''slow''\<rparr>]
        \<lparr>totals = [[(''fast'', 3)]], ledgers = [[(''gpu'', Some 0)]], vars = [Some 0]\<rparr>) = (True, 1)"
  (is "?wf \<and> ?p \<and> ?m1 \<and> ?m2 \<and> ?g1 \<and> ?g2")
proof -
  have wf: ?wf by code_simp
  have p: ?p by simp
  have m1: ?m1 and m2: ?m2 by (simp_all add: pairs_def)
  have f1: "GetAmount (Some 0) ''gpu'' ''fast''
     \<lparr>totals = [[(''fast'', 3)]], ledgers = [[(''gpu'', Some 0)]], vars = [Some 0]\<rparr> = (True, 3)"
    by code_simp
  have f2: "GetAmount (Some 0) ''gpu'' ''slow''
     \<lparr>totals = [[(''fast'', 3)]], ledgers = [[(''gpu'', Some 0)]], vars = [Some 0]\<rparr> = (False, 0)"
    by code_simp
  have ?g1 using set_max_presence_floor[OF wf p m1] unfolding f1 by simp
  moreover have ?g2 using set_max_presence_floor[OF wf p m2] unfolding f2 by simp
  ultimately show ?thesis using wf p m1 m2 by blast
qed

text \<open>
  Claim C2: in the container-level ledger that \<^verbatim>\<open>PodQOSResourceRequests\<close> returns, a
  pair requested by a regular container has the number of its occurrences in the request
  lists of all regular containers as amount, and a pair requested by init containers
  only has amount 1, however many init containers request it. The amount is an
  \<^verbatim>\<open>int64\<close>, read by \<open>sint\<close>; the number of occurrences is below \<open>2 ^ 63\<close> for
  every pod that fits into memory, and is assumed to be.
\<close>

theorem container_level_amounts:
  assumes "wf_store s"
  shows "\<exists>podReqs containerReqs s'.
     PodQOSResourceRequests (Some pod) s = Inr (podReqs, containerReqs, s') \<and>
     (\<forall>name cls.
        (0 < count_list (pairs (container_requests (Containers (Spec pod)))) (name, cls) \<and>
         count_list (pairs (container_requests (Containers (Spec pod)))) (name, cls) < 2 ^ 63 \<longrightarrow>
           fst (GetAmount (Some containerReqs) name cls s') \<and>
           sint (snd (GetAmount (Some containerReqs) name cls s')) =
           int (count_list (pairs (container_requests (Containers (Spec pod)))) (name, cls))) \<and>
        (count_list (pairs (container_requests (Containers (Spec pod)))) (name, cls) = 0 \<and>
         (name, cls) \<in> set (pairs (container_requests (InitContainers (Spec pod)))) \<longrightarrow>
           GetAmount (Some containerReqs) name cls s' = (True, 1)))"
proof -
  obtain podReqs containerReqs s'
    where res: "PodQOSResourceRequests (Some pod) s = Inr (podReqs, containerReqs, s')"
    by (simp add: PodQOSResourceRequests_Some)
  note P = PodQOSResourceRequests_props[OF assms res]
  show ?thesis using res P(7) by (auto simp: int64_sint_of_nat int64_of_nat_eq_0)
qed

theorem container_level_amounts_witness:
  "wf_store \<lparr>totals = [], ledgers = [], vars = []\<rparr> \<and>
   (\<exists>podReqs containerReqs s'.
      PodQOSResourceRequests
        (Some \<lparr>Spec = \<lparr>PodQOSResources = [],
                Containers = [\<lparr>Resources = \<lparr>QOSResources = [\<lparr>Name = ''gpu'', Class = ''fast''\<rparr>]\<rparr>\<rparr>,
                              \<lparr>Resources = \<lparr>QOSResources = [\<lparr>Name = ''gpu'', Class = ''fast''\<rparr>]\<rparr>\<rparr>,
                              \<lparr>Resources = \<lparr>QOSResources = [\<lparr>Name = ''gpu'', Class = ''fast''\<rparr>]\<rparr>\<rparr>],
                InitContainers = [\<lparr>Resources = \<lparr>QOSResources = [\<lparr>Name = ''gpu'', Class = ''fast''\<rparr>,
                                                                   \<lparr>Name = ''net'', Class = ''a''\<rparr>]\<rparr>\<rparr>,
                                  \<lparr>Resources = \<lparr>QOSResources = [\<lparr>Name = ''net'', Class = ''a''\<rparr>]\<rparr>\<rparr>]\<rparr>\<rparr>)
        \<lparr>totals = [], ledgers = [], vars = []\<rparr> = Inr (podReqs, containerReqs, s') \<and>
      fst (GetAmount (Some containerReqs) ''gpu'' ''fast'' s') \<and>
      sint (snd (GetAmount (Some containerReqs) ''gpu'' ''fast'' s')) = 3 \<and>
      GetAmount (Some containerReqs) ''net'' ''a'' s' = (True, 1))"
proof -
  let ?s = "\<lparr>totals = [], ledgers = [], vars = []\<rparr>"
  let ?pod = "\<lparr>Spec = \<lparr>PodQOSResources = [],
                Containers = [\<lparr>Resources = \<lparr>QOSResources = [\<lparr>Name = ''gpu'', Class = ''fast''\<rparr>]\<rparr>\<rparr>,
                              \<lparr>Resources = \<lparr>QOSResources = [\<lparr>Name = ''gpu'', Class = ''fast''\<rparr>]\<rparr>\<rparr>,
                              \<lparr>Resources = \<lparr>QOSResources = [\<lparr>Name = ''gpu'', Class = ''fast''\<rparr>]\<rparr>\<rparr>],
                InitContainers = [\<lparr>Resources = \<lparr>QOSResources = [\<lparr>Name = ''gpu'', Class = ''fast''\<rparr>,
                                                                   \<lparr>Name = ''net'', Class = ''a''\<rparr>]\<rparr>\<rparr>,
                                  \<lparr>Resources = \<lparr>QOSResources = [\<lparr>Name = ''net'', Class = ''a''\<rparr>]\<rparr>\<rparr>]\<rparr>\<rparr>"
  have wf: "wf_store ?s" by code_simp
  have k1: "count_list (pairs (container_requests (Containers (Spec ?pod)))) (''gpu'', ''fast'') = 3"
    and k2: "count_list (pairs (container_requests (Containers (Spec ?pod)))) (''net'', ''a'') = 0"
    and i2: "(''net'', ''a'') \<in> set (pairs (container_requests (InitContainers (Spec ?pod))))"
    by (simp_all add: pairs_def container_requests_def)
  from container_level_amounts[OF wf, of ?pod] obtain podReqs containerReqs s'
    where res: "PodQOSResourceRequests (Some ?pod) ?s = Inr (podReqs, containerReqs, s')"
      and g: "\<And>name cls.
        (0 < count_list (pairs (container_requests (Containers (Spec ?pod)))) (name, cls) \<and>
         count_list (pairs (container_requests (Containers (Spec ?pod)))) (name, cls) < 2 ^ 63 \<longrightarrow>
           fst (GetAmount (Some containerReqs) name cls s') \<and>
           sint (snd (GetAmount (Some containerReqs) name cls s')) =
           int (count_list (pairs (container_requests (Containers (Spec ?pod)))) (name, cls))) \<and>
        (count_list (pairs (container_requests (Containers (Spec ?pod)))) (name, cls) = 0 \<and>
         (name, cls) \<in> set (pairs (container_requests (InitContainers (Spec ?pod)))) \<longrightarrow>
           GetAmount (Some containerReqs) name cls s' = (True, 1))"
    by blast
  from g[of "''gpu''" "''fast''"] have "fst (GetAmount (Some containerReqs) ''gpu'' ''fast'' s')"
    and "sint (snd (GetAmount (Some containerReqs) ''gpu'' ''fast'' s')) = 3"
    unfolding k1 by simp_all
  moreover from g[of "''net''" "''a''"] i2 have "GetAmount (Some containerReqs) ''net'' ''a'' s' = (True, 1)"
    unfolding k2 by simp
  ultimately show ?thesis using res wf by blast
qed

text \<open>
  Claim C3: \<^verbatim>\<open>GetAmount\<close> returns \<open>(False, 0)\<close> when the resource key is absent,
  \<open>(False, 0)\<close> when the resource key is present and the class key is not,
  and \<open>(True, amount)\<close> when both are present; this includes \<open>(True, 0)\<close> after a
  subtraction has brought the amount of a present key back to zero.
\<close>

theorem GetAmount_three_way:
  "(map_of (ledger_at s (vars s ! p)) name = None \<longrightarrow>
      GetAmount (Some p) name cls s = (False, 0)) \<and>
   (map_of (ledger_at s (vars s ! p)) name = Some t \<and> map_of (total_at s t) cls = None \<longrightarrow>
      GetAmount (Some p) name cls s = (False, 0)) \<and>
   (map_of (ledger_at s (vars s ! p)) name = Some t \<and> map_of (total_at s t) cls = Some amount \<longrightarrow>
      GetAmount (Some p) name cls s = (True, amount)) \<and>
   (wf_store s \<and> p < length (vars s) \<and> GetAmount (Some p) name cls s = (True, amount) \<longrightarrow>
      GetAmount (Some p) name cls (add (Some p) name cls (- 1 * amount) s) = (True, 0))"
proof -
  have "GetAmount (Some p) name cls (add (Some p) name cls (- 1 * amount) s) = (True, 0)"
    if "wf_store s" "p < length (vars s)" "GetAmount (Some p) name cls s = (True, amount)"
    using add_props(4)[OF that(1,2), where name = name and cls = cls] that(3) by simp
  moreover have "GetAmount (Some p) name cls s = (False, 0)"
    if "map_of (ledger_at s (vars s ! p)) name = None"
    using that by (auto simp: GetAmount_def ledger_at_def split: option.splits)
  moreover have "GetAmount (Some p) name cls s = (False, 0)"
    if "map_of (ledger_at s (vars s ! p)) name = Some t" "map_of (total_at s t) cls = None"
    using that by (auto simp: GetAmount_def ledger_at_def split: option.splits)
  moreover have "GetAmount (Some p) name cls s = (True, amount)"
    if "map_of (ledger_at s (vars s ! p)) name = Some t" "map_of (total_at s t) cls = Some amount"
    using that by (auto simp: GetAmount_def ledger_at_def split: option.splits)
  ultimately show ?thesis by blast
qed

theorem GetAmount_three_way_witness:
  "GetAmount (Some 0) ''net'' ''fast''
     \<lparr>totals = [[(''fast'', 5)]], ledgers = [[(''gpu'', Some 0)]], vars = [Some 0]\<rparr> = (False, 0) \<and>
   GetAmount (Some 0) ''gpu'' ''slow''
     \<lparr>totals = [[(''fast'', 5)]], ledgers = [[(''gpu'', Some 0)]], vars = [Some 0]\<rparr> = (False, 0) \<and>
   GetAmount (Some 0) ''gpu'' ''fast''
     \<lparr>totals = [[(''fast'', 5)]], ledgers = [[(''gpu'', Some 0)]], vars = [Some 0]\<rparr> = (True, 5) \<and>
   GetAmount (Some 0) ''gpu'' ''fast''
     (add (Some 0) ''gpu'' ''fast'' (- 1 * 5)
        \<lparr>totals = [[(''fast'', 5)]], ledgers = [[(''gpu'', Some 0)]], vars = [Some 0]\<rparr>) = (True, 0)"
  (is "?a \<and> ?b \<and> ?c \<and> ?d")
proof -
  let ?s = "\<lparr>totals = [[(''fast'', 5)]], ledgers = [[(''gpu'', Some 0)]], vars = [Some 0]\<rparr>"
  have wf: "wf_store ?s" by code_simp
  have l1: "map_of (ledger_at ?s (vars ?s ! 0)) ''net'' = None"
    and l2: "map_of (ledger_at ?s (vars ?s ! 0)) ''gpu'' = Some (Some 0)"
    by (simp_all add: ledger_at_def)
  have t1: "map_of (total_at ?s (Some 0)) ''slow'' = None"
    and t2: "map_of (total_at ?s (Some 0)) ''fast'' = Some 5"
    by (simp_all add: total_at_def)
  have ?a using GetAmount_three_way[where s = ?s and p = 0 and name = "''net''" and cls = "''fast''"] l1 by blast
  moreover have ?b using GetAmount_three_way[where s = ?s and p = 0 and name = "''gpu''" and t = "Some 0" and cls = "''slow''"] l2 t1 by blast
  moreover have c: ?c using GetAmount_three_way[where s = ?s and p = 0 and name = "''gpu''" and t = "Some 0" and cls = "''fast''" and amount = 5] l2 t2 by blast
  moreover have ?d using GetAmount_three_way[where s = ?s and p = 0 and name = "''gpu''" and t = "Some 0" and cls = "''fast''" and amount = 5] wf c by simp
  ultimately show ?thesis by blast
qed

text \<open>
  When the argument of \<^verbatim>\<open>Sum\<close> is the receiver itself, the first call doubles every
  amount and the second one leaves 0: the ledger read is the ledger written. The next
  theorem is about an argument other than the receiver.
\<close>

lemma Sum_self_example:
  "GetAmount (Some 0) ''gpu'' ''fast''
     (Sum (Some 0) (Some 0) False (Sum (Some 0) (Some 0) True
       \<lparr>totals = [[(''fast'', 1)]], ledgers = [[(''gpu'', Some 0)]], vars = [Some 0]\<rparr>)) = (True, 0)"
  by code_simp

text \<open>
  Claim C4: for a receiver ledger and another ledger of a well-formed store, or a nil
  argument, \<^verbatim>\<open>Sum(other, true)\<close> followed by \<^verbatim>\<open>Sum(other, false)\<close> restores the
  amount of every (resource, class) pair of the receiver. Amounts are compared as
  \<^verbatim>\<open>GetAmount\<close> returns them, 0 for a pair without an entry; the restoration is exact
  also where an addition wraps around.
\<close>

theorem Sum_add_then_subtract:
  assumes "wf_store s" and "p < length (vars s)" and "valid_ptr s r2" and "r2 \<noteq> Some p"
  shows "snd (GetAmount (Some p) name cls (Sum (Some p) r2 False (Sum (Some p) r2 True s))) =
         snd (GetAmount (Some p) name cls s)"
proof (cases r2)
  case None
  then show ?thesis by (simp add: Sum_def)
next
  case (Some q)
  then have q: "q < length (vars s)" "q \<noteq> p" using assms(3,4) by (simp_all add: valid_ptr_def)
  let ?s1 = "Sum (Some p) (Some q) True s"
  note F = framesD(1-3)[OF frames_Sum[of p "Some q" True] assms(1,2)]
  have p1: "p < length (vars ?s1)" and q1: "q < length (vars ?s1)"
    using F(2) assms(2) q(1) by simp_all
  have same: "same_ledger q s ?s1" using F(3)[OF q] .
  then have l: "ledger_at ?s1 (vars ?s1 ! q) = ledger_at s (vars s ! q)"
    unfolding same_ledger_def by simp
  have ent: "Sum_entries ?s1 (ledger_at s (vars s ! q)) = Sum_entries s (ledger_at s (vars s ! q))"
    using Sum_entries_same[OF same order_refl] .
  have "snd (GetAmount (Some p) name cls (Sum (Some p) (Some q) False ?s1)) =
      snd (GetAmount (Some p) name cls ?s1) +
      (if False then 1 else - 1) *
        amount_in (Sum_entries ?s1 (ledger_at ?s1 (vars ?s1 ! q))) name cls"
    by (rule Sum_amount[OF F(1) p1 q1 q(2)])
  also have "snd (GetAmount (Some p) name cls ?s1) =
      snd (GetAmount (Some p) name cls s) +
      (if True then 1 else - 1) *
        amount_in (Sum_entries s (ledger_at s (vars s ! q))) name cls"
    by (rule Sum_amount[OF assms(1,2) q])
  finally show ?thesis unfolding Some l ent by simp
qed

theorem Sum_add_then_subtract_witness:
  "wf_store \<lparr>totals = [[(''fast'', 1)], [(''fast'', 2), (''slow'', 5)]],
             ledgers = [[(''gpu'', Some 0)], [(''gpu'', Some 1)]], vars = [Some 0, Some 1]\<rparr> \<and>
   snd (GetAmount (Some 0) ''gpu'' ''fast''
     (Sum (Some 0) (Some 1) False (Sum (Some 0) (Some 1) True
       \<lparr>totals = [[(''fast'', 1)], [(''fast'', 2), (''slow'', 5)]],
          ledgers = [[(''gpu'', Some 0)], [(''gpu'', Some 1)]], vars = [Some 0, Some 1]\<rparr>))) = 1 \<and>
   snd (GetAmount (Some 0) ''gpu'' ''slow''
     (Sum (Some 0) (Some 1) False (Sum (Some 0) (Some 1) True
       \<lparr>totals = [[(''fast'', 1)], [(''fast'', 2), (''slow'', 5)]],
          ledgers = [[(''gpu'', Some 0)], [(''gpu'', Some 1)]], vars = [Some 0, Some 1]\<rparr>))) = 0"
  (is "?wf \<and> ?a \<and> ?b")
proof -
  let ?s = "\<lparr>totals = [[(''fast'', 1)], [(''fast'', 2), (''slow'', 5)]],
             ledgers = [[(''gpu'', Some 0)], [(''gpu'', Some 1)]], vars = [Some 0, Some 1]\<rparr>"
  have wf: ?wf by code_simp
  have p: "0 < length (vars ?s)" by simp
  have v: "valid_ptr ?s (Some 1)" by (simp add: valid_ptr_def)
  have ne: "Some (1::nat) \<noteq> Some 0" by simp
  have g1: "snd (GetAmount (Some 0) ''gpu'' ''fast'' ?s) = 1"
    and g2: "snd (GetAmount (Some 0) ''gpu'' ''slow'' ?s) = 0"
    by code_simp+
  from Sum_add_then_subtract[OF wf p v ne, of "''gpu''" "''fast''"] g1 have ?a by simp
  moreover from Sum_add_then_subtract[OF wf p v ne, of "''gpu''" "''slow''"] g2 have ?b by simp
  ultimately show ?thesis using wf by blast
qed

text \<open>
  Claim C5: \<^verbatim>\<open>Clone\<close> of a ledger returns a pointer to another variable, whose ledger
  gives the same \<^verbatim>\<open>GetAmount\<close> result as the source for every pair. Whatever
  sequence of \<^verbatim>\<open>add\<close>, \<^verbatim>\<open>AddPodQOSResources\<close>, \<^verbatim>\<open>AddContainerQOSResources\<close>,
  \<^verbatim>\<open>SetMaxContainerQOSResources\<close> and \<^verbatim>\<open>Sum\<close> is then applied to the clone, the results
  for the source stay what they were; whatever sequence is applied to the source, the
  results for the clone stay what they were. \<^verbatim>\<open>Clone\<close> of nil is nil.
\<close>

theorem Clone_independent:
  assumes "wf_store s" and "p < length (vars s)"
  shows "\<exists>out s'.
     Clone (Some p) s = (Some out, s') \<and> out \<noteq> p \<and>
     (\<forall>name cls. GetAmount (Some out) name cls s' = GetAmount (Some p) name cls s) \<and>
     (\<forall>ops name cls. (\<forall>x \<in> set ops. receiver x = Some out) \<longrightarrow>
        GetAmount (Some p) name cls (apply_ops ops s') = GetAmount (Some p) name cls s) \<and>
     (\<forall>ops name cls. (\<forall>x \<in> set ops. receiver x = Some p) \<longrightarrow>
        GetAmount (Some out) name cls (apply_ops ops s') = GetAmount (Some p) name cls s) \<and>
     Clone None s = (None, s)"
proof -
  obtain r' s' where c: "Clone (Some p) s = (r', s')" by (cases "Clone (Some p) s")
  note C = Clone_props[OF assms c]
  let ?out = "length (vars s)"
  have o': "?out < length (vars s')" and p': "p < length (vars s')" and ne: "?out \<noteq> p"
    using C(3) assms(2) by simp_all
  have a: "GetAmount (Some ?out) name cls s' = GetAmount (Some p) name cls s" for name cls
    using C(5) C(1) by simp
  have b: "GetAmount (Some p) name cls (apply_ops ops s') = GetAmount (Some p) name cls s"
    if "\<forall>x \<in> set ops. receiver x = Some ?out" for ops name cls
    using framesD(4)[OF frames_apply_ops[OF that] C(2) o' p'] ne
      same_ledger_GetAmount[OF C(4)[OF assms(2)]] by simp
  have d: "GetAmount (Some ?out) name cls (apply_ops ops s') = GetAmount (Some p) name cls s"
    if "\<forall>x \<in> set ops. receiver x = Some p" for ops name cls
    using framesD(4)[OF frames_apply_ops[OF that] C(2) p' o'] ne a by simp
  have e: "Clone None s = (None, s)" by (simp add: Clone_def)
  from c C(1) ne a b d e show ?thesis by blast
qed

theorem Clone_independent_witness:
  "wf_store \<lparr>totals = [[(''fast'', 1)]], ledgers = [[(''gpu'', Some 0)]], vars = [Some 0]\<rparr> \<and>
   (\<exists>out s'.
      Clone (Some 0) \<lparr>totals = [[(''fast'', 1)]], ledgers = [[(''gpu'', Some 0)]], vars = [Some 0]\<rparr> =
        (Some out, s') \<and> out \<noteq> 0 \<and>
      GetAmount (Some out) ''gpu'' ''fast'' s' = (True, 1) \<and>
      GetAmount (Some 0) ''gpu'' ''fast''
        (apply_ops [Op_add (Some out) ''gpu'' ''fast'' 5, Op_Sum (Some out) (Some 0) True] s') = (True, 1) \<and>
      GetAmount (Some out) ''gpu'' ''fast''
        (apply_ops [Op_add (Some 0) ''gpu'' ''fast'' 5, Op_Sum (Some 0) (Some out) False] s') = (True, 1))"
proof -
  let ?s = "\<lparr>totals = [[(''fast'', 1)]], ledgers = [[(''gpu'', Some 0)]], vars = [Some 0]\<rparr>"
  have wf: "wf_store ?s" by code_simp
  have p: "0 < length (vars ?s)" by simp
  have g: "GetAmount (Some 0) ''gpu'' ''fast'' ?s = (True, 1)" by code_simp
  from Clone_independent[OF wf p] obtain out s'
    where c: "Clone (Some 0) ?s = (Some out, s')" and ne: "out \<noteq> 0"
      and a: "\<And>name cls. GetAmount (Some out) name cls s' = GetAmount (Some 0) name cls ?s"
      and b: "\<And>ops name cls. (\<forall>x \<in> set ops. receiver x = Some out) \<Longrightarrow>
        GetAmount (Some 0) name cls (apply_ops ops s') = GetAmount (Some 0) name cls ?s"
      and d: "\<And>ops name cls. (\<forall>x \<in> set ops. receiver x = Some 0) \<Longrightarrow>
        GetAmount (Some out) name cls (apply_ops ops s') = GetAmount (Some 0) name cls ?s"
    by blast
  have "GetAmount (Some out) ''gpu'' ''fast'' s' = (True, 1)" using a g by simp
  moreover have "GetAmount (Some 0) ''gpu'' ''fast''
        (apply_ops [Op_add (Some out) ''gpu'' ''fast'' 5, Op_Sum (Some out) (Some 0) True] s') = (True, 1)"
    using b[of "[Op_add (Some out) ''gpu'' ''fast'' 5, Op_Sum (Some out) (Some 0) True]"] g by simp
  moreover have "GetAmount (Some out) ''gpu'' ''fast''
        (apply_ops [Op_add (Some 0) ''gpu'' ''fast'' 5, Op_Sum (Some 0) (Some out) False] s') = (True, 1)"
    using d[of "[Op_add (Some 0) ''gpu'' ''fast'' 5, Op_Sum (Some 0) (Some out) False]"] g by simp
  ultimately show ?thesis using wf c ne by blast
qed

text \<open>
  Claim C6: on a nil receiver the mutators \<^verbatim>\<open>add\<close>, \<^verbatim>\<open>AddPodQOSResources\<close>,
  \<^verbatim>\<open>AddContainerQOSResources\<close>, \<^verbatim>\<open>SetMaxContainerQOSResources\<close> and \<^verbatim>\<open>Sum\<close>
  change nothing (\<^verbatim>\<open>Sum\<close> also when its argument is nil), \<^verbatim>\<open>GetAmount\<close> returns
  \<open>(False, 0)\<close> for every key on a nil receiver and on a variable that holds the nil
  map, and \<^verbatim>\<open>Clone\<close> of nil is nil. None of these functions has a failing branch:
  each dereference of the receiver and each write to a map comes after the nil check or
  the \<^verbatim>\<open>make\<close> that guards it.
\<close>

theorem nil_ledger_operations:
  "add None name class amount s = s \<and>
   AddPodQOSResources None qrl s = s \<and>
   AddContainerQOSResources None qrl s = s \<and>
   SetMaxContainerQOSResources None qrl s = s \<and>
   Sum None r2 adding s = s \<and>
   Sum r None adding s = s \<and>
   GetAmount None name class s = (False, 0) \<and>
   (vars s ! p = None \<longrightarrow> GetAmount (Some p) name class s = (False, 0)) \<and>
   Clone None s = (None, s)"
  by (simp add: add_def AddPodQOSResources_def AddContainerQOSResources_def
      SetMaxContainerQOSResources_def Sum_def GetAmount_def Clone_def split: option.splits)

theorem nil_ledger_operations_witness:
  "vars \<lparr>totals = [], ledgers = [], vars = [None]\<rparr> ! 0 = None \<and>
   GetAmount (Some 0) ''gpu'' ''fast'' \<lparr>totals = [], ledgers = [], vars = [None]\<rparr> = (False, 0) \<and>
   add None ''gpu'' ''fast'' 1 \<lparr>totals = [], ledgers = [], vars = [None]\<rparr> =
     \<lparr>totals = [], ledgers = [], vars = [None]\<rparr>"
  using nil_ledger_operations[of "''gpu''" "''fast''" 1
      "\<lparr>totals = [], ledgers = [], vars = [None]\<rparr>" "[]" None True None 0]
  by simp

text \<open>
  Claim C7: in the pod-level ledger that \<^verbatim>\<open>PodQOSResourceRequests\<close> returns, the
  amount of every pair is the number of its occurrences in the pod-level request list;
  the pair is found exactly when it occurs. The amount is this number as an \<^verbatim>\<open>int64\<close>,
  and reads as the number itself whenever that is below \<open>2 ^ 63\<close>.
\<close>

theorem pod_level_amounts:
  assumes "wf_store s"
  shows "\<exists>podReqs containerReqs s'.
     PodQOSResourceRequests (Some pod) s = Inr (podReqs, containerReqs, s') \<and>
     (\<forall>name class.
        GetAmount (Some podReqs) name class s' =
          (0 < count_list (pairs (PodQOSResources (Spec pod))) (name, class),
           of_nat (count_list (pairs (PodQOSResources (Spec pod))) (name, class))) \<and>
        (count_list (pairs (PodQOSResources (Spec pod))) (name, class) < 2 ^ 63 \<longrightarrow>
           sint (snd (GetAmount (Some podReqs) name class s')) =
           int (count_list (pairs (PodQOSResources (Spec pod))) (name, class))))"
proof -
  obtain podReqs containerReqs s'
    where res: "PodQOSResourceRequests (Some pod) s = Inr (podReqs, containerReqs, s')"
    by (simp add: PodQOSResourceRequests_Some)
  note P = PodQOSResourceRequests_props[OF assms res]
  show ?thesis using res P(6) by (auto simp: int64_sint_of_nat)
qed

theorem pod_level_amounts_witness:
  "wf_store \<lparr>totals = [], ledgers = [], vars = []\<rparr> \<and>
   (\<exists>podReqs containerReqs s'.
      PodQOSResourceRequests
        (Some \<lparr>Spec = \<lparr>PodQOSResources = [\<lparr>Name = ''gpu'', Class = ''fast''\<rparr>, \<lparr>Name = ''gpu'', Class = ''fast''\<rparr>],
                        Containers = [], InitContainers = []\<rparr>\<rparr>)
        \<lparr>totals = [], ledgers = [], vars = []\<rparr> = Inr (podReqs, containerReqs, s') \<and>
      GetAmount (Some podReqs) ''gpu'' ''fast'' s' = (True, 2) \<and>
      sint (snd (GetAmount (Some podReqs) ''gpu'' ''fast'' s')) = 2)"
proof -
  let ?s = "\<lparr>totals = [], ledgers = [], vars = []\<rparr>"
  let ?pod = "\<lparr>Spec = \<lparr>PodQOSResources = [\<lparr>Name = ''gpu'', Class = ''fast''\<rparr>, \<lparr>Name = ''gpu'', Class = ''fast''\<rparr>],
                        Containers = [], InitContainers = []\<rparr>\<rparr>"
  have wf: "wf_store ?s" by code_simp
  have k: "count_list (pairs (PodQOSResources (Spec ?pod))) (''gpu'', ''fast'') = 2"
    by (simp add: pairs_def)
  from pod_level_amounts[OF wf, of ?pod] obtain podReqs containerReqs s'
    where res: "PodQOSResourceRequests (Some ?pod) ?s = Inr (podReqs, containerReqs, s')"
      and g: "\<And>name class. GetAmount (Some podReqs) name class s' =
          (0 < count_list (pairs (PodQOSResources (Spec ?pod))) (name, class),
           of_nat (count_list (pairs (PodQOSResources (Spec ?pod))) (name, class))) \<and>
        (count_list (pairs (PodQOSResources (Spec ?pod))) (name, class) < 2 ^ 63 \<longrightarrow>
           sint (snd (GetAmount (Some podReqs) name class s')) =
           int (count_list (pairs (PodQOSResources (Spec ?pod))) (name, class)))"
    by blast
  from g[of "''gpu''" "''fast''"] have "GetAmount (Some podReqs) ''gpu'' ''fast'' s' = (True, 2)"
    and "sint (snd (GetAmount (Some podReqs) ''gpu'' ''fast'' s')) = 2"
    unfolding k by simp_all
  with res wf show ?thesis by blast
qed

text \<open>
  Claim C8: the ledger that \<^verbatim>\<open>QOSResourcesTotalFromInfo\<close> builds maps an advertised
  resource category to a counter that maps each class name of the category to its
  advertised capacity; nothing is added up. Where a class name occurs twice in a
  category, the capacity seen last is the amount; likewise the entry seen last for a
  category that occurs twice in the list defines its counter.
\<close>

theorem capacity_info_conversion:
  assumes "wf_store s"
  shows "GetAmount (Some (fst (QOSResourcesTotalFromInfo infos s))) name cls
           (snd (QOSResourcesTotalFromInfo infos s)) =
         (case last_seen (info_classes infos) name of
            None \<Rightarrow> (False, 0)
          | Some cs \<Rightarrow>
              (case last_seen (class_capacities cs) cls of
                 None \<Rightarrow> (False, 0)
               | Some capacity \<Rightarrow> (True, capacity)))"
proof -
  let ?s2 = "declare_ledger s"
  note D = declare_ledger_props[OF assms]
  have wf2: "wf_store ?s2" using wf_declare_ledger[OF assms] .
  have p2: "length (vars s) < length (vars ?s2)" using D(1) by simp
  note F = FromInfo_resources_aux[OF wf2 p2 D(2), of infos]
  show ?thesis
    unfolding QOSResourcesTotalFromInfo_eq fst_conv snd_conv
    using F D(4) by (simp add: last_seen_def lookup_amount_def split: option.splits)
qed

theorem capacity_info_conversion_witness:
  "wf_store \<lparr>totals = [], ledgers = [], vars = []\<rparr> \<and>
   GetAmount
     (Some (fst (QOSResourcesTotalFromInfo
        [\<lparr>InfoName = ''gpu'', Classes = [\<lparr>ClassName = ''fast'', Capacity = 8\<rparr>,
                                        \<lparr>ClassName = ''slow'', Capacity = 16\<rparr>,
                                        \<lparr>ClassName = ''fast'', Capacity = 9\<rparr>]\<rparr>]
        \<lparr>totals = [], ledgers = [], vars = []\<rparr>))) ''gpu'' ''fast''
     (snd (QOSResourcesTotalFromInfo
        [\<lparr>InfoName = ''gpu'', Classes = [\<lparr>ClassName = ''fast'', Capacity = 8\<rparr>,
                                        \<lparr>ClassName = ''slow'', Capacity = 16\<rparr>,
                                        \<lparr>ClassName = ''fast'', Capacity = 9\<rparr>]\<rparr>]
        \<lparr>totals = [], ledgers = [], vars = []\<rparr>)) = (True, 9) \<and>
   GetAmount
     (Some (fst (QOSResourcesTotalFromInfo
        [\<lparr>InfoName = ''gpu'', Classes = [\<lparr>ClassName = ''fast'', Capacity = 8\<rparr>,
                                        \<lparr>ClassName = ''slow'', Capacity = 16\<rparr>,
                                        \<lparr>ClassName = ''fast'', Capacity = 9\<rparr>]\<rparr>]
        \<lparr>totals = [], ledgers = [], vars = []\<rparr>))) ''gpu'' ''slow''
     (snd (QOSResourcesTotalFromInfo
        [\<lparr>InfoName = ''gpu'', Classes = [\<lparr>ClassName = ''fast'', Capacity = 8\<rparr>,
                                        \<lparr>ClassName = ''slow'', Capacity = 16\<rparr>,
                                        \<lparr>ClassName = ''fast'', Capacity = 9\<rparr>]\<rparr>]
        \<lparr>totals = [], ledgers = [], vars = []\<rparr>)) = (True, 16)"
proof -
  let ?s = "\<lparr>totals = [], ledgers = [], vars = []\<rparr>"
  let ?infos = "[\<lparr>InfoName = ''gpu'', Classes = [\<lparr>ClassName = ''fast'', Capacity = 8\<rparr>,
                                        \<lparr>ClassName = ''slow'', Capacity = 16\<rparr>,
                                        \<lparr>ClassName = ''fast'', Capacity = 9\<rparr>]\<rparr>]"
  have wf: "wf_store ?s" by code_simp
  have l: "last_seen (info_classes ?infos) ''gpu'' = Some (Classes (hd ?infos))"
    by (simp add: last_seen_def info_classes_def)
  have c1: "last_seen (class_capacities (Classes (hd ?infos))) ''fast'' = Some 9"
    and c2: "last_seen (class_capacities (Classes (hd ?infos))) ''slow'' = Some 16"
    by (simp_all add: last_seen_def class_capacities_def)
  from capacity_info_conversion[OF wf, of ?infos "''gpu''" "''fast''"]
    capacity_info_conversion[OF wf, of ?infos "''gpu''" "''slow''"]
  show ?thesis unfolding l option.case c1 c2 using wf by blast
qed

text \<open>
  Claim C9: every amount found in either ledger that \<^verbatim>\<open>PodQOSResourceRequests\<close>
  returns is non-negative. The request lists are Go slices, whose lengths are below
  \<open>2 ^ 63\<close>; the model's lists are unbounded, so the bound is a hypothesis.
\<close>

theorem aggregation_amounts_nonnegative:
  assumes "wf_store s"
    and "length (PodQOSResources (Spec pod)) < 2 ^ 63"
    and "length (container_requests (Containers (Spec pod))) < 2 ^ 63"
  shows "\<exists>podReqs containerReqs s'.
     PodQOSResourceRequests (Some pod) s = Inr (podReqs, containerReqs, s') \<and>
     (\<forall>name cls.
        (fst (GetAmount (Some podReqs) name cls s') \<longrightarrow>
           0 \<le> sint (snd (GetAmount (Some podReqs) name cls s'))) \<and>
        (fst (GetAmount (Some containerReqs) name cls s') \<longrightarrow>
           0 \<le> sint (snd (GetAmount (Some containerReqs) name cls s'))))"
proof -
  obtain podReqs containerReqs s'
    where res: "PodQOSResourceRequests (Some pod) s = Inr (podReqs, containerReqs, s')"
    by (simp add: PodQOSResourceRequests_Some)
  note P = PodQOSResourceRequests_props[OF assms(1) res]
  have kp: "count_list (pairs (PodQOSResources (Spec pod))) x < 2 ^ 63" for x
    using count_le_length[of "pairs (PodQOSResources (Spec pod))" x] assms(2)
    by (simp add: pairs_def)
  have kc: "count_list (pairs (container_requests (Containers (Spec pod)))) x < 2 ^ 63" for x
    using count_le_length[of "pairs (container_requests (Containers (Spec pod)))" x] assms(3)
    by (simp add: pairs_def)
  have "0 \<le> sint (snd (GetAmount (Some podReqs) name cls s'))" for name cls
    unfolding P(6) by (simp add: int64_sint_of_nat[OF kp])
  moreover have "0 \<le> sint (snd (GetAmount (Some containerReqs) name cls s'))" for name cls
    unfolding P(7) by (simp add: int64_sint_of_nat[OF kc])
  ultimately show ?thesis using res by blast
qed

theorem aggregation_amounts_nonnegative_witness:
  "wf_store \<lparr>totals = [], ledgers = [], vars = []\<rparr> \<and>
   (\<exists>podReqs containerReqs s'.
      PodQOSResourceRequests
        (Some \<lparr>Spec = \<lparr>PodQOSResources = [\<lparr>Name = ''gpu'', Class = ''fast''\<rparr>],
                Containers = [\<lparr>Resources = \<lparr>QOSResources = [\<lparr>Name = ''gpu'', Class = ''fast''\<rparr>]\<rparr>\<rparr>],
                InitContainers = [\<lparr>Resources = \<lparr>QOSResources = [\<lparr>Name = ''net'', Class = ''a''\<rparr>]\<rparr>\<rparr>]\<rparr>\<rparr>)
        \<lparr>totals = [], ledgers = [], vars = []\<rparr> = Inr (podReqs, containerReqs, s') \<and>
      fst (GetAmount (Some podReqs) ''gpu'' ''fast'' s') \<and>
      0 \<le> sint (snd (GetAmount (Some podReqs) ''gpu'' ''fast'' s')) \<and>
      fst (GetAmount (Some containerReqs) ''net'' ''a'' s') \<and>
      0 \<le> sint (snd (GetAmount (Some containerReqs) ''net'' ''a'' s')))"
proof -
  let ?s = "\<lparr>totals = [], ledgers = [], vars = []\<rparr>"
  let ?pod = "\<lparr>Spec = \<lparr>PodQOSResources = [\<lparr>Name = ''gpu'', Class = ''fast''\<rparr>],
                Containers = [\<lparr>Resources = \<lparr>QOSResources = [\<lparr>Name = ''gpu'', Class = ''fast''\<rparr>]\<rparr>\<rparr>],
                InitContainers = [\<lparr>Resources = \<lparr>QOSResources = [\<lparr>Name = ''net'', Class = ''a''\<rparr>]\<rparr>\<rparr>]\<rparr>\<rparr>"
  have wf: "wf_store ?s" by code_simp
  have l1: "length (PodQOSResources (Spec ?pod)) < 2 ^ 63"
    and l2: "length (container_requests (Containers (Spec ?pod))) < 2 ^ 63"
    by (simp_all add: container_requests_def)
  have ev: "PodQOSResourceRequests (Some ?pod) ?s =
      Inr (0, 1, \<lparr>totals = [[(''fast'', 1)], [(''fast'', 1)], [(''a'', 1)]],
                  ledgers = [[(''gpu'', Some 0)], [(''gpu'', Some 1), (''net'', Some 2)]],
                  vars = [Some 0, Some 1]\<rparr>)"
    by code_simp
  from aggregation_amounts_nonnegative[OF wf l1 l2] obtain podReqs containerReqs s'
    where res: "PodQOSResourceRequests (Some ?pod) ?s = Inr (podReqs, containerReqs, s')"
      and g: "\<And>name cls.
        (fst (GetAmount (Some podReqs) name cls s') \<longrightarrow>
           0 \<le> sint (snd (GetAmount (Some podReqs) name cls s'))) \<and>
        (fst (GetAmount (Some containerReqs) name cls s') \<longrightarrow>
           0 \<le> sint (snd (GetAmount (Some containerReqs) name cls s')))"
    by blast
  from res ev have eq: "podReqs = 0" "containerReqs = 1"
    "s' = \<lparr>totals = [[(''fast'', 1)], [(''fast'', 1)], [(''a'', 1)]],
                  ledgers = [[(''gpu'', Some 0)], [(''gpu'', Some 1), (''net'', Some 2)]],
                  vars = [Some 0, Some 1]\<rparr>"
    by auto
  have f1: "fst (GetAmount (Some podReqs) ''gpu'' ''fast'' s')"
    and f2: "fst (GetAmount (Some containerReqs) ''net'' ''a'' s')"
    unfolding eq by code_simp+
  from g[of "''gpu''" "''fast''"] g[of "''net''" "''a''"] f1 f2 res wf show ?thesis by blast
qed

text \<open>
  Claim C10: no operation removes a key. A pair that \<^verbatim>\<open>GetAmount\<close> finds in a ledger
  is still found after any sequence of \<^verbatim>\<open>add\<close>, \<^verbatim>\<open>AddPodQOSResources\<close>,
  \<^verbatim>\<open>AddContainerQOSResources\<close>, \<^verbatim>\<open>SetMaxContainerQOSResources\<close> and \<^verbatim>\<open>Sum\<close> in
  either direction, applied to this ledger or to any other ledger of the store, also
  when a subtraction brings the amount to zero or below.
\<close>

theorem keys_never_removed:
  assumes "wf_store s" and "q < length (vars s)"
    and "\<forall>x \<in> set ops. valid_ptr s (receiver x)"
    and "fst (GetAmount (Some q) name cls s)"
  shows "fst (GetAmount (Some q) name cls (apply_ops ops s))"
  using assms
proof (induction ops arbitrary: s)
  case Nil
  then show ?case by simp
next
  case (Cons x ops)
  have v: "valid_ptr s (receiver x)" using Cons.prems(3) by simp
  note A = apply_op_found[OF Cons.prems(1,2) v Cons.prems(4)]
  have "\<forall>y \<in> set ops. valid_ptr (apply_op x s) (receiver y)"
    using Cons.prems(3) A by (auto simp: valid_ptr_def split: option.splits)
  from Cons.IH[OF _ _ this] A Cons.prems(2) show ?case by simp
qed

theorem keys_never_removed_witness:
  "wf_store \<lparr>totals = [[(''fast'', 1)], [(''fast'', 2)]],
             ledgers = [[(''gpu'', Some 0)], [(''gpu'', Some 1)]], vars = [Some 0, Some 1]\<rparr> \<and>
   fst (GetAmount (Some 0) ''gpu'' ''fast''
     \<lparr>totals = [[(''fast'', 1)], [(''fast'', 2)]],
        ledgers = [[(''gpu'', Some 0)], [(''gpu'', Some 1)]], vars = [Some 0, Some 1]\<rparr>) \<and>
   fst (GetAmount (Some 0) ''gpu'' ''fast''
     (apply_ops [Op_Sum (Some 0) (Some 1) False, Op_add (Some 0) ''gpu'' ''fast'' 1,
                 Op_Sum (Some 0) (Some 0) False,
                 Op_SetMaxContainerQOSResources (Some 1) [\<lparr>Name = ''gpu'', Class = ''slow''\<rparr>]]
       \<lparr>totals = [[(''fast'', 1)], [(''fast'', 2)]],
          ledgers = [[(''gpu'', Some 0)], [(''gpu'', Some 1)]], vars = [Some 0, Some 1]\<rparr>)) \<and>
   GetAmount (Some 0) ''gpu'' ''fast''
     (apply_ops [Op_Sum (Some 0) (Some 1) False, Op_add (Some 0) ''gpu'' ''fast'' 1]
       \<lparr>totals = [[(''fast'', 1)], [(''fast'', 2)]],
          ledgers = [[(''gpu'', Some 0)], [(''gpu'', Some 1)]], vars = [Some 0, Some 1]\<rparr>) = (True, 0)"
  (is "?wf \<and> ?f \<and> ?g \<and> ?h")
proof -
  let ?s = "\<lparr>totals = [[(''fast'', 1)], [(''fast'', 2)]],
             ledgers = [[(''gpu'', Some 0)], [(''gpu'', Some 1)]], vars = [Some 0, Some 1]\<rparr>"
  have wf: ?wf by code_simp
  have f: ?f by code_simp
  have h: ?h by code_simp
  have q: "0 < length (vars ?s)" by simp
  have v: "\<forall>x \<in> set [Op_Sum (Some 0) (Some 1) False, Op_add (Some 0) ''gpu'' ''fast'' 1,
                 Op_Sum (Some 0) (Some 0) False,
                 Op_SetMaxContainerQOSResources (Some 1) [\<lparr>Name = ''gpu'', Class = ''slow''\<rparr>]].
              valid_ptr ?s (receiver x)"
    by (simp add: valid_ptr_def)
  from keys_never_removed[OF wf q v f] wf f h show ?thesis by blast
qed

end
